theory Spec2Isabelle
  imports Main
begin

section \<open>Data model\<close>

text \<open>
  The protocol types of \<^verbatim>\<open>src/loop.ts\<close> and \<^verbatim>\<open>src/tools/base.ts\<close>.
  A JSON value that the loop only passes on (a tool input, a tool's protocol shape)
  is kept as its text.
\<close>

type_synonym json = string

datatype media_type = image_png | image_jpeg | image_gif | image_webp

text \<open>
  \<^verbatim>\<open>ToolResult\<close> (base.ts): every field is optional and may be \<^verbatim>\<open>null\<close>;
  both \<^verbatim>\<open>undefined\<close> and \<^verbatim>\<open>null\<close> are \<open>None\<close>.
\<close>

record ToolResult =
  output' :: "string option"
  error :: "string option"
  base64Image :: "string option"
  system :: "string option"
  mediaType :: "media_type option"

text \<open>
  \<^verbatim>\<open>new ToolFailure(error)\<close>: the class has the fields \<^verbatim>\<open>error\<close>,
  \<^verbatim>\<open>output\<close>, \<^verbatim>\<open>base64Image\<close> and \<^verbatim>\<open>system\<close>; only \<^verbatim>\<open>error\<close> is given at
  both places that build one.
\<close>

definition ToolFailure :: "string \<Rightarrow> ToolResult" where
  "ToolFailure e =
     \<lparr>output' = None, error = Some e, base64Image = None, system = None, mediaType = None\<rparr>"

text \<open>
  The items of a \<^verbatim>\<open>tool_result\<close>'s content array
  (\<^verbatim>\<open>BetaTextBlockParam | BetaImageBlockParam\<close>); an image item carries the media type
  and the base64 data of its source.
\<close>

datatype result_item = TextItem string | ImageItem media_type string

text \<open>
  The \<^verbatim>\<open>content\<close> of a \<^verbatim>\<open>tool_result\<close> block is optional, and either a string
  or an array; the \<^verbatim>\<open>content\<close> of a message is a string or an array of blocks.
\<close>

datatype result_content = NoContent | StringContent string | ArrayContent "result_item list"

datatype block =
    Text string
  | Image media_type string
  | ToolUse string string json
  | ToolResultBlock string result_content "bool option"
  | OtherBlock json

datatype role = user | assistant

datatype message_content = Str string | Blocks "block list"

record message =
  role :: role
  content :: message_content

section \<open>The Result Assembler\<close>

text \<open>
  JavaScript's truthiness test on an optional string, as in \<^verbatim>\<open>if (result.error)\<close>:
  \<^verbatim>\<open>undefined\<close>, \<^verbatim>\<open>null\<close> and the empty string are falsy. \<open>truthy\<close> gives the
  string when the test succeeds.
\<close>

fun truthy :: "string option \<Rightarrow> string option" where
  "truthy None = None"
| "truthy (Some s) = (if s = [] then None else Some s)"

definition maybePrependSystemToolResult :: "ToolResult \<Rightarrow> string \<Rightarrow> string" where
  "maybePrependSystemToolResult result txt =
     (case truthy (system result) of
        Some s \<Rightarrow> ''<system>'' @ s @ ''</system>'' @ [CHR 0x0A] @ txt
      | None \<Rightarrow> txt)"

definition makeApiToolResult :: "ToolResult \<Rightarrow> string \<Rightarrow> block" where
  "makeApiToolResult result toolUseId =
     (case truthy (error result) of
        Some e \<Rightarrow>
          ToolResultBlock toolUseId
            (ArrayContent [TextItem (maybePrependSystemToolResult result e)]) (Some True)
      | None \<Rightarrow>
          ToolResultBlock toolUseId
            (ArrayContent
               ((case truthy (output' result) of
                   Some out \<Rightarrow> [TextItem (maybePrependSystemToolResult result out)]
                 | None \<Rightarrow> [])
                @ (case truthy (base64Image result) of
                     Some img \<Rightarrow>
                       [ImageItem (case mediaType result of Some m \<Rightarrow> m | None \<Rightarrow> image_png) img]
                   | None \<Rightarrow> [])))
            (Some False))"

section \<open>The Registry\<close>

text \<open>
  What an effector can throw: a \<^verbatim>\<open>ToolError\<close> with its message, or any other value,
  kept as the text that the template literal \<^verbatim>\<open>${err}\<close> renders it to.
\<close>

datatype exn = ToolError string | OtherError string

record params =
  name :: string
  shape :: json

text \<open>
  \<^verbatim>\<open>BaseAnthropicTool\<close>. An effector acts on the environment, so \<^verbatim>\<open>execute\<close> takes
  the state of the world \<open>'w\<close> and returns the new one, with either the exception it
  throws or its result.
\<close>

record 'w tool =
  execute :: "json \<Rightarrow> 'w \<Rightarrow> (exn + ToolResult) \<times> 'w"
  toParams :: params

text \<open>
  The \<^verbatim>\<open>toolMap\<close> is a JavaScript \<^verbatim>\<open>Map\<close>: it keeps insertion order, and
  \<^verbatim>\<open>set\<close> on a key that is present replaces the value where it stands.
\<close>

type_synonym 'w ToolCollection = "(string \<times> 'w tool) list"

fun Map_set :: "(string \<times> 'v) list \<Rightarrow> string \<Rightarrow> 'v \<Rightarrow> (string \<times> 'v) list" where
  "Map_set [] k v = [(k, v)]"
| "Map_set ((k', v') # m) k v = (if k' = k then (k, v) # m else (k', v') # Map_set m k v)"

definition new_ToolCollection :: "'w tool list \<Rightarrow> 'w ToolCollection" where
  "new_ToolCollection tools = fold (\<lambda>t m. Map_set m (name (toParams t)) t) tools []"

definition ToolCollection_toParams :: "'w ToolCollection \<Rightarrow> params list" where
  "ToolCollection_toParams toolMap = map (\<lambda>(k, t). toParams t) toolMap"

text \<open>
  \<^verbatim>\<open>ToolCollection.run\<close>. The result is a sum so that an exception leaving the call
  would be a value \<open>Inl\<close>; the \<^verbatim>\<open>catch\<close> has a branch for each kind of exception.
\<close>

definition ToolCollection_run ::
  "'w ToolCollection \<Rightarrow> string \<Rightarrow> json \<Rightarrow> 'w \<Rightarrow> (exn + ToolResult) \<times> 'w" where
  "ToolCollection_run toolMap nm toolInput w =
     (case map_of toolMap nm of
        None \<Rightarrow> (Inr (ToolFailure (''Tool '' @ nm @ '' is invalid'')), w)
      | Some t \<Rightarrow>
          (case execute t toolInput w of
             (Inr result, w') \<Rightarrow> (Inr result, w')
           | (Inl (ToolError msg), w') \<Rightarrow> (Inr (ToolFailure msg), w')
           | (Inl (OtherError rendering), w') \<Rightarrow>
               (Inr (ToolFailure (''Unknown error: '' @ rendering)), w')))"

section \<open>The Context Window Trimmer\<close>

text \<open>
  \<^verbatim>\<open>Array.isArray(message.content) ? message.content : []\<close> and
  \<^verbatim>\<open>Array.isArray(result.content) ? result.content : []\<close>.
\<close>

fun message_blocks :: "message \<Rightarrow> block list" where
  "message_blocks m = (case content m of Blocks bs \<Rightarrow> bs | Str _ \<Rightarrow> [])"

fun is_tool_result :: "block \<Rightarrow> bool" where
  "is_tool_result (ToolResultBlock _ _ _) = True"
| "is_tool_result _ = False"

fun result_items :: "block \<Rightarrow> result_item list" where
  "result_items (ToolResultBlock _ (ArrayContent items) _) = items"
| "result_items _ = []"

fun is_image_item :: "result_item \<Rightarrow> bool" where
  "is_image_item (ImageItem _ _) = True"
| "is_image_item (TextItem _) = False"

definition toolResultBlocks :: "message list \<Rightarrow> block list" where
  "toolResultBlocks messages = filter is_tool_result (concat (map message_blocks messages))"

text \<open>The \<^verbatim>\<open>reduce\<close> that counts the image items of all tool results.\<close>

definition totalImages :: "message list \<Rightarrow> int" where
  "totalImages messages =
     fold (\<lambda>result count. count + int (length (filter is_image_item (result_items result))))
       (toolResultBlocks messages) 0"

text \<open>
  JavaScript's \<^verbatim>\<open>%\<close> on integers: the remainder of the division that truncates
  towards zero, with the sign of the dividend; \<^verbatim>\<open>a % 0\<close> is \<^verbatim>\<open>NaN\<close>, here \<open>None\<close>.
  The counts and both parameters are taken to be integers.
\<close>

definition js_rem :: "int \<Rightarrow> int \<Rightarrow> int option" where
  "js_rem a b = (if b = 0 then None else Some (sgn a * (\<bar>a\<bar> mod \<bar>b\<bar>)))"

text \<open>
  The removal loop. The source walks \<^verbatim>\<open>toolResultBlocks\<close>, whose elements are the
  very block objects of the conversation, and replaces each one's \<^verbatim>\<open>content\<close> by
  its filtered copy; one counter \<^verbatim>\<open>imagesToRemove\<close> is shared by all the filter
  callbacks. The model walks the conversation in the same order, threads the counter,
  and returns the conversation with the new contents in place. (It takes every block
  object to occur once in the conversation.)
\<close>

fun remove_images :: "result_item list \<Rightarrow> int \<Rightarrow> result_item list \<times> int" where
  "remove_images [] n = ([], n)"
| "remove_images (item # items) n =
     (if is_image_item item \<and> n > 0 then remove_images items (n - 1)
      else (case remove_images items n of (kept, n') \<Rightarrow> (item # kept, n')))"

fun trim_block :: "block \<Rightarrow> int \<Rightarrow> block \<times> int" where
  "trim_block (ToolResultBlock tid (ArrayContent items) err) n =
     (case remove_images items n of
        (newContent, n') \<Rightarrow> (ToolResultBlock tid (ArrayContent newContent) err, n'))"
| "trim_block b n = (b, n)"

fun trim_blocks :: "block list \<Rightarrow> int \<Rightarrow> block list \<times> int" where
  "trim_blocks [] n = ([], n)"
| "trim_blocks (b # bs) n =
     (case trim_block b n of
        (b', n') \<Rightarrow> (case trim_blocks bs n' of (bs', n'') \<Rightarrow> (b' # bs', n'')))"

fun trim_message :: "message \<Rightarrow> int \<Rightarrow> message \<times> int" where
  "trim_message m n =
     (case content m of
        Blocks bs \<Rightarrow> (case trim_blocks bs n of (bs', n') \<Rightarrow> (m\<lparr>content := Blocks bs'\<rparr>, n'))
      | Str _ \<Rightarrow> (m, n))"

fun trim_messages :: "message list \<Rightarrow> int \<Rightarrow> message list \<times> int" where
  "trim_messages [] n = ([], n)"
| "trim_messages (m # ms) n =
     (case trim_message m n of
        (m', n') \<Rightarrow> (case trim_messages ms n' of (ms', n'') \<Rightarrow> (m' # ms', n'')))"

text \<open>
  \<^verbatim>\<open>filterNMostRecentImages(messages, imagesToKeep, minRemovalThreshold)\<close>. When
  the remainder is \<^verbatim>\<open>NaN\<close>, so is \<^verbatim>\<open>imagesToRemove\<close>: both \<^verbatim>\<open>imagesToRemove <= 0\<close>
  and \<^verbatim>\<open>imagesToRemove > 0\<close> are false, and the loop keeps every item.
\<close>

definition filterNMostRecentImages :: "message list \<Rightarrow> int \<Rightarrow> int \<Rightarrow> message list" where
  "filterNMostRecentImages messages imagesToKeep minRemovalThreshold =
     (let excess = totalImages messages - imagesToKeep in
      case js_rem excess minRemovalThreshold of
        None \<Rightarrow> messages
      | Some r \<Rightarrow>
          (let imagesToRemove = excess - r in
           if imagesToRemove \<le> 0 then messages
           else fst (trim_messages messages imagesToRemove)))"

section \<open>The Orchestration Loop\<close>

text \<open>
  The request that \<^verbatim>\<open>run\<close> sends with \<^verbatim>\<open>client.beta.messages.create\<close>, and the
  options of \<^verbatim>\<open>run\<close> (\<^verbatim>\<open>provider\<close> and \<^verbatim>\<open>apiKey\<close> are not read by it). Of the
  response only \<^verbatim>\<open>content\<close> is read, so a response is its list of blocks. The
  three callbacks return nothing: they act on the world, and are taken to return. An
  effector is taken to return or to throw. The conversation is the caller's array,
  which \<^verbatim>\<open>run\<close> updates in place and returns: it is the state that the model threads
  through the loop. What a run that ends with an exception has left in that array is
  not part of its result here.
\<close>

record request =
  req_max_tokens :: int
  req_messages :: "message list"
  req_model :: string
  req_system :: string
  req_tools :: "params list"
  req_betas :: "string list"

record 'w SamplingLoopOptions =
  model :: string
  systemPromptSuffix :: string
  messages :: "message list"
  outputCallback :: "block \<Rightarrow> 'w \<Rightarrow> 'w"
  toolOutputCallback :: "ToolResult \<Rightarrow> string \<Rightarrow> 'w \<Rightarrow> 'w"
  apiResponseCallback :: "block list \<Rightarrow> 'w \<Rightarrow> 'w"
  onlyNMostRecentImages :: "int option"
  maxTokens :: "int option"

text \<open>
  The \<^verbatim>\<open>SamplingLoop\<close> object: its registry and its client. The reasoning service
  is outside the program: \<^verbatim>\<open>client\<close> takes the request and the world and returns
  the response, or the exception of a failed call. \<^verbatim>\<open>getSystemPrompt\<close> reads the
  platform and the date from the world.
\<close>

record 'w SamplingLoop =
  toolCollection :: "'w ToolCollection"
  client :: "request \<Rightarrow> 'w \<Rightarrow> (exn + block list) \<times> 'w"
  getSystemPrompt :: "'w \<Rightarrow> string"

definition BETA_FLAG :: string where
  "BETA_FLAG = ''computer-use-2024-10-22''"

text \<open>
  The \<^verbatim>\<open>for\<close> loop over \<^verbatim>\<open>response.content\<close>; \<open>toolResultContent\<close> is the array
  that the loop pushes to. An exception of \<^verbatim>\<open>toolCollection.run\<close> would leave the
  loop.
\<close>

fun dispatch_blocks ::
  "'w SamplingLoop \<Rightarrow> 'w SamplingLoopOptions \<Rightarrow> block list \<Rightarrow> block list \<Rightarrow> 'w
     \<Rightarrow> (exn + block list) \<times> 'w" where
  "dispatch_blocks L opts [] toolResultContent w = (Inr toolResultContent, w)"
| "dispatch_blocks L opts (b # bs) toolResultContent w =
     (let w1 = outputCallback opts b w in
      case b of
        ToolUse tid nm inp \<Rightarrow>
          (case ToolCollection_run (toolCollection L) nm inp w1 of
             (Inl e, w2) \<Rightarrow> (Inl e, w2)
           | (Inr result, w2) \<Rightarrow>
               (let toolResult = makeApiToolResult result tid;
                    w3 = toolOutputCallback opts result tid w2
                in dispatch_blocks L opts bs (toolResultContent @ [toolResult]) w3))
      | _ \<Rightarrow> dispatch_blocks L opts bs toolResultContent w1)"

text \<open>
  The argument of \<^verbatim>\<open>client.beta.messages.create\<close>: \<^verbatim>\<open>maxTokens\<close> defaults to
  \<^verbatim>\<open>4096\<close>, and the conversation is sent as it stands.
\<close>

definition make_request ::
  "'w SamplingLoop \<Rightarrow> 'w SamplingLoopOptions \<Rightarrow> string \<Rightarrow> message list \<Rightarrow> request" where
  "make_request L opts sys msgs =
     \<lparr>req_max_tokens = (case maxTokens opts of Some n \<Rightarrow> n | None \<Rightarrow> 4096),
      req_messages = msgs, req_model = model opts, req_system = sys,
      req_tools = ToolCollection_toParams (toolCollection L),
      req_betas = [BETA_FLAG]\<rparr>"

text \<open>One pass through the body of \<^verbatim>\<open>while (true)\<close>.\<close>

datatype 'w turn_result =
    Throw exn 'w
  | Return "message list" 'w
  | Continue "message list" 'w

definition turn ::
  "'w SamplingLoop \<Rightarrow> 'w SamplingLoopOptions \<Rightarrow> string \<Rightarrow> message list \<Rightarrow> 'w \<Rightarrow> 'w turn_result"
  where
  "turn L opts sys msgs w =
     (case client L (make_request L opts sys msgs) w of
        (Inl e, w1) \<Rightarrow> Throw e w1
      | (Inr response, w1) \<Rightarrow>
          (let w2 = apiResponseCallback opts response w1;
               msgs1 = msgs @ [\<lparr>role = assistant, content = Blocks response\<rparr>]
           in case dispatch_blocks L opts response [] w2 of
                (Inl e, w3) \<Rightarrow> Throw e w3
              | (Inr toolResultContent, w3) \<Rightarrow>
                  if length toolResultContent = 0 then Return msgs1 w3
                  else Continue (msgs1 @ [\<lparr>role = user, content = Blocks toolResultContent\<rparr>]) w3))"

text \<open>
  The \<^verbatim>\<open>while (true)\<close> loop has no bound: it is a partial function, and \<open>None\<close>
  is a run that never ends. A run that ends gives the exception or the returned
  conversation, and the world it leaves.
\<close>

partial_function (option) run_loop ::
  "'w SamplingLoop \<Rightarrow> 'w SamplingLoopOptions \<Rightarrow> string \<Rightarrow> message list \<Rightarrow> 'w
     \<Rightarrow> ((exn + message list) \<times> 'w) option" where
  "run_loop L opts sys msgs w =
     (case turn L opts sys msgs w of
        Throw e w' \<Rightarrow> Some (Inl e, w')
      | Return msgs' w' \<Rightarrow> Some (Inr msgs', w')
      | Continue msgs' w' \<Rightarrow> run_loop L opts sys msgs' w')"

text \<open>
  \<^verbatim>\<open>SamplingLoop.run\<close>. \<^verbatim>\<open>if (onlyNMostRecentImages)\<close> is false for
  \<^verbatim>\<open>undefined\<close> and for \<^verbatim>\<open>0\<close>; the filter is called with its default
  \<^verbatim>\<open>minRemovalThreshold = 10\<close>.
\<close>

definition run ::
  "'w SamplingLoop \<Rightarrow> 'w SamplingLoopOptions \<Rightarrow> 'w \<Rightarrow> ((exn + message list) \<times> 'w) option"
  where
  "run L opts w =
     (let msgs = (case onlyNMostRecentImages opts of
                    Some n \<Rightarrow>
                      if n \<noteq> 0 then filterNMostRecentImages (messages opts) n 10
                      else messages opts
                  | None \<Rightarrow> messages opts);
          sys = getSystemPrompt L w
                @ (if systemPromptSuffix opts \<noteq> [] then '' '' @ systemPromptSuffix opts else [])
      in run_loop L opts sys msgs w)"

section \<open>Observations on conversations\<close>

text \<open>
  The image items of a conversation in conversation order: those that the trimmer
  counts, inside the array contents of the tool results.
\<close>

definition images :: "message list \<Rightarrow> result_item list" where
  "images msgs = filter is_image_item (concat (map result_items (toolResultBlocks msgs)))"

text \<open>
  \<open>only_images_deleted xs ys\<close>: the content \<open>ys\<close> is \<open>xs\<close> with some image items
  deleted, the other items and the order kept. \<open>block_trimmed\<close>, \<open>message_trimmed\<close>
  and \<open>conversation_trimmed\<close> lift this to a block, a message and a conversation, where
  nothing else may differ.
\<close>

fun only_images_deleted :: "result_item list \<Rightarrow> result_item list \<Rightarrow> bool" where
  "only_images_deleted [] ys = (ys = [])"
| "only_images_deleted (x # xs) [] = (is_image_item x \<and> only_images_deleted xs [])"
| "only_images_deleted (x # xs) (y # ys) =
     ((x = y \<and> only_images_deleted xs ys) \<or> (is_image_item x \<and> only_images_deleted xs (y # ys)))"

fun block_trimmed :: "block \<Rightarrow> block \<Rightarrow> bool" where
  "block_trimmed (ToolResultBlock tid (ArrayContent xs) err) b' =
     (case b' of
        ToolResultBlock tid' (ArrayContent ys) err' \<Rightarrow>
          tid' = tid \<and> err' = err \<and> only_images_deleted xs ys
      | _ \<Rightarrow> False)"
| "block_trimmed b b' = (b' = b)"

fun blocks_trimmed :: "block list \<Rightarrow> block list \<Rightarrow> bool" where
  "blocks_trimmed [] bs' = (bs' = [])"
| "blocks_trimmed (b # bs) [] = False"
| "blocks_trimmed (b # bs) (b' # bs') = (block_trimmed b b' \<and> blocks_trimmed bs bs')"

fun message_trimmed :: "message \<Rightarrow> message \<Rightarrow> bool" where
  "message_trimmed m m' =
     (role m' = role m \<and>
      (case content m of
         Blocks bs \<Rightarrow> (case content m' of Blocks bs' \<Rightarrow> blocks_trimmed bs bs' | Str _ \<Rightarrow> False)
       | Str s \<Rightarrow> content m' = Str s))"

fun conversation_trimmed :: "message list \<Rightarrow> message list \<Rightarrow> bool" where
  "conversation_trimmed [] ms' = (ms' = [])"
| "conversation_trimmed (m # ms) [] = False"
| "conversation_trimmed (m # ms) (m' # ms') = (message_trimmed m m' \<and> conversation_trimmed ms ms')"

text \<open>The image items of a list of blocks, as \<open>images\<close> collects them.\<close>

definition block_images :: "block list \<Rightarrow> result_item list" where
  "block_images bs = filter is_image_item (concat (map result_items (filter is_tool_result bs)))"

text \<open>A conversation of one user message that answers one request with \<open>n\<close> screenshots.\<close>

definition screenshots :: "nat \<Rightarrow> message list" where
  "screenshots n =
     [\<lparr>role = user,
       content = Blocks [Text ''see'',
                         ToolResultBlock ''toolu_0''
                           (ArrayContent (TextItem ''shots'' # replicate n (ImageItem image_png ''AAAA'')))
                           (Some False)]\<rparr>]"

text \<open>
  The ids of the \<^verbatim>\<open>tool_use\<close> blocks of a response, in order; the id that a
  \<^verbatim>\<open>tool_result\<close> block answers; and \<open>answers response results\<close>: the blocks
  \<open>results\<close> are tool results, one for each request of \<open>response\<close>, in the order of
  the requests and with their ids.
\<close>

fun request_ids :: "block list \<Rightarrow> string list" where
  "request_ids [] = []"
| "request_ids (ToolUse tid nm inp # bs) = tid # request_ids bs"
| "request_ids (b # bs) = request_ids bs"

fun result_id :: "block \<Rightarrow> string option" where
  "result_id (ToolResultBlock tid c e) = Some tid"
| "result_id b = None"

definition answers :: "block list \<Rightarrow> block list \<Rightarrow> bool" where
  "answers response results = (map result_id results = map Some (request_ids response))"

text \<open>
  \<open>exchanges app\<close>: the messages \<open>app\<close> are pairs of an assistant message that makes
  requests and the user message that answers them.
\<close>

fun exchanges :: "message list \<Rightarrow> bool" where
  "exchanges [] = True"
| "exchanges [m] = False"
| "exchanges (a # u # rest) =
     (role a = assistant \<and> role u = user
      \<and> (case content a of
            Blocks response \<Rightarrow>
              request_ids response \<noteq> []
              \<and> (case content u of Blocks results \<Rightarrow> answers response results | Str _ \<Rightarrow> False)
          | Str _ \<Rightarrow> False)
      \<and> exchanges rest)"

text \<open>
  The state at the head of the loop after \<open>n\<close> passes that continued: the conversation
  and the world with which the next request is made; \<open>None\<close> when the loop has ended
  before. \<open>nth_request\<close> is that request and \<open>nth_response\<close> what the service answers.
\<close>

fun loop_state ::
  "'w SamplingLoop \<Rightarrow> 'w SamplingLoopOptions \<Rightarrow> string \<Rightarrow> message list \<Rightarrow> 'w \<Rightarrow> nat
     \<Rightarrow> (message list \<times> 'w) option" where
  "loop_state L opts sys msgs w 0 = Some (msgs, w)"
| "loop_state L opts sys msgs w (Suc n) =
     (case turn L opts sys msgs w of
        Continue msgs' w' \<Rightarrow> loop_state L opts sys msgs' w' n
      | _ \<Rightarrow> None)"

definition nth_request ::
  "'w SamplingLoop \<Rightarrow> 'w SamplingLoopOptions \<Rightarrow> string \<Rightarrow> message list \<Rightarrow> 'w \<Rightarrow> nat
     \<Rightarrow> request option" where
  "nth_request L opts sys msgs w n =
     (case loop_state L opts sys msgs w n of
        None \<Rightarrow> None
      | Some (ms, w') \<Rightarrow> Some (make_request L opts sys ms))"

definition nth_response ::
  "'w SamplingLoop \<Rightarrow> 'w SamplingLoopOptions \<Rightarrow> string \<Rightarrow> message list \<Rightarrow> 'w \<Rightarrow> nat
     \<Rightarrow> (exn + block list) option" where
  "nth_response L opts sys msgs w n =
     (case loop_state L opts sys msgs w n of
        None \<Rightarrow> None
      | Some (ms, w') \<Rightarrow> Some (fst (client L (make_request L opts sys ms) w')))"

text \<open>What \<^verbatim>\<open>run\<close> gives when a pass through the loop body ends the loop.\<close>

fun finish :: "'w turn_result \<Rightarrow> ((exn + message list) \<times> 'w) option" where
  "finish (Throw e w) = Some (Inl e, w)"
| "finish (Return msgs w) = Some (Inr msgs, w)"
| "finish (Continue msgs w) = None"

text \<open>
  The conversation and the system prompt with which \<^verbatim>\<open>run\<close> enters its loop, and the
  requests and responses of a run.
\<close>

definition entry_messages :: "'w SamplingLoopOptions \<Rightarrow> message list" where
  "entry_messages opts =
     (case onlyNMostRecentImages opts of
        Some n \<Rightarrow> if n \<noteq> 0 then filterNMostRecentImages (messages opts) n 10 else messages opts
      | None \<Rightarrow> messages opts)"

definition system_text :: "'w SamplingLoop \<Rightarrow> 'w SamplingLoopOptions \<Rightarrow> 'w \<Rightarrow> string" where
  "system_text L opts w =
     getSystemPrompt L w
     @ (if systemPromptSuffix opts \<noteq> [] then '' '' @ systemPromptSuffix opts else [])"

definition run_request ::
  "'w SamplingLoop \<Rightarrow> 'w SamplingLoopOptions \<Rightarrow> 'w \<Rightarrow> nat \<Rightarrow> request option" where
  "run_request L opts w n =
     nth_request L opts (system_text L opts w) (entry_messages opts) w n"

definition run_response ::
  "'w SamplingLoop \<Rightarrow> 'w SamplingLoopOptions \<Rightarrow> 'w \<Rightarrow> nat \<Rightarrow> (exn + block list) option" where
  "run_response L opts w n =
     nth_response L opts (system_text L opts w) (entry_messages opts) w n"

section \<open>Example effectors, services and options\<close>

text \<open>
  Effectors on a world without state: \<open>echo_tool\<close> returns its input as output,
  \<open>screenshot_tool\<close> returns an image, \<open>failing_tool\<close> throws a \<^verbatim>\<open>ToolError\<close> with
  the given message, and \<open>crashing_tool\<close> throws a value that is not a \<^verbatim>\<open>ToolError\<close>,
  given as the text it is rendered to.
\<close>

definition echo_tool :: "unit tool" where
  "echo_tool =
     \<lparr>execute = (\<lambda>inp w. (Inr \<lparr>output' = Some inp, error = None, base64Image = None,
                                  system = None, mediaType = None\<rparr>, w)),
      toParams = \<lparr>name = ''echo'', shape = ''{}''\<rparr>\<rparr>"

definition screenshot_tool :: "unit tool" where
  "screenshot_tool =
     \<lparr>execute = (\<lambda>inp w. (Inr \<lparr>output' = None, error = None, base64Image = Some ''AAAA'',
                                  system = None, mediaType = None\<rparr>, w)),
      toParams = \<lparr>name = ''computer'', shape = ''{}''\<rparr>\<rparr>"



text \<open>
  A service that follows a script: its answer to a request is decided by the number of
  assistant messages in the conversation it is sent, that is, by the number of calls
  made before.
\<close>

definition scripted_loop :: "(nat \<Rightarrow> block list) \<Rightarrow> unit SamplingLoop" where
  "scripted_loop script =
     \<lparr>toolCollection = new_ToolCollection [screenshot_tool, echo_tool],
      client = (\<lambda>req w.
         (Inr (script (length (filter (\<lambda>m. role m = assistant) (req_messages req)))), w)),
      getSystemPrompt = (\<lambda>w. ''<SYSTEM_CAPABILITY>'')\<rparr>"

definition two_turn_script :: "nat \<Rightarrow> block list" where
  "two_turn_script n =
     (if n = 0 then [Text ''Looking.'', ToolUse ''toolu_1'' ''computer'' ''{}'']
      else [Text ''Done.''])"

definition insistent_script :: "nat \<Rightarrow> block list" where
  "insistent_script n = [ToolUse ''toolu_1'' ''computer'' ''{}'']"

definition eleven_shots_script :: "nat \<Rightarrow> block list" where
  "eleven_shots_script n =
     (if n = 0 then map (\<lambda>i. ToolUse (''toolu_'' @ replicate i (CHR ''x'')) ''computer'' ''{}'') [0..<11]
      else [Text ''Done.''])"

text \<open>
  The options with which \<^verbatim>\<open>ComputerUseClient.sendMessage\<close> calls \<^verbatim>\<open>run\<close>: a
  conversation of the one user message, as a string, and callbacks that do nothing.
\<close>

definition sendMessage_options :: "string \<Rightarrow> int option \<Rightarrow> unit SamplingLoopOptions" where
  "sendMessage_options msg keep =
     \<lparr>model = ''claude-3-5-sonnet-20241022'', systemPromptSuffix = [],
      messages = [\<lparr>role = user, content = Str msg\<rparr>],
      outputCallback = (\<lambda>b w. w), toolOutputCallback = (\<lambda>r tid w. w),
      apiResponseCallback = (\<lambda>r w. w),
      onlyNMostRecentImages = keep, maxTokens = None\<rparr>"

section \<open>Properties of the Result Assembler\<close>

lemma truthy_Some_iff: "truthy x = Some s \<longleftrightarrow> x = Some s \<and> s \<noteq> []"
  by (cases x) auto

lemma truthy_None_iff: "truthy x = None \<longleftrightarrow> x = None \<or> x = Some []"
  by (cases x) auto

text \<open>
  C7. A field of the tool result is set, or present, when the source's own test on it
  succeeds (\<open>truthy\<close>: neither \<^verbatim>\<open>undefined\<close>, \<^verbatim>\<open>null\<close> nor the empty string). If
  \<^verbatim>\<open>error\<close> is set, the assembled block is flagged as an error and its content is the
  single text item of the error. Otherwise it is not flagged, and its content is the
  text item of \<^verbatim>\<open>output\<close> if present, followed by the image item if the image is
  present: text then image when both are, and the empty content when the result is
  empty. The request id is copied in every case.
\<close>

theorem makeApiToolResult_content:
  "(truthy (error r) = Some e \<longrightarrow>
      makeApiToolResult r tid =
        ToolResultBlock tid (ArrayContent [TextItem (maybePrependSystemToolResult r e)]) (Some True))
   \<and> (truthy (error r) = None \<and> truthy (output' r) = Some out \<and> truthy (base64Image r) = Some img \<longrightarrow>
      makeApiToolResult r tid =
        ToolResultBlock tid
          (ArrayContent [TextItem (maybePrependSystemToolResult r out),
                         ImageItem (case mediaType r of Some m \<Rightarrow> m | None \<Rightarrow> image_png) img])
          (Some False))
   \<and> (truthy (error r) = None \<and> truthy (output' r) = Some out \<and> truthy (base64Image r) = None \<longrightarrow>
      makeApiToolResult r tid =
        ToolResultBlock tid (ArrayContent [TextItem (maybePrependSystemToolResult r out)]) (Some False))
   \<and> (truthy (error r) = None \<and> truthy (output' r) = None \<and> truthy (base64Image r) = Some img \<longrightarrow>
      makeApiToolResult r tid =
        ToolResultBlock tid
          (ArrayContent [ImageItem (case mediaType r of Some m \<Rightarrow> m | None \<Rightarrow> image_png) img])
          (Some False))
   \<and> (truthy (error r) = None \<and> truthy (output' r) = None \<and> truthy (base64Image r) = None \<longrightarrow>
      makeApiToolResult r tid = ToolResultBlock tid (ArrayContent []) (Some False))"
proof (cases "truthy (error r)")
  case None
  then show ?thesis
    by (cases "truthy (output' r)"; cases "truthy (base64Image r)")
       (simp_all add: makeApiToolResult_def)
next
  case (Some e')
  then show ?thesis by (simp add: makeApiToolResult_def)
qed

theorem makeApiToolResult_content_witness:
  "makeApiToolResult
     \<lparr>output' = Some ''ok'', error = None, base64Image = Some ''AAAA'', system = None,
      mediaType = Some image_jpeg\<rparr> ''toolu_1''
     = ToolResultBlock ''toolu_1''
         (ArrayContent [TextItem ''ok'', ImageItem image_jpeg ''AAAA'']) (Some False)
   \<and> makeApiToolResult
       \<lparr>output' = Some ''ok'', error = Some ''boom'', base64Image = Some ''AAAA'', system = None,
        mediaType = None\<rparr> ''toolu_2''
     = ToolResultBlock ''toolu_2'' (ArrayContent [TextItem ''boom'']) (Some True)
   \<and> makeApiToolResult
       \<lparr>output' = None, error = None, base64Image = None, system = None, mediaType = None\<rparr>
       ''toolu_3''
     = ToolResultBlock ''toolu_3'' (ArrayContent []) (Some False)"
  using
    makeApiToolResult_content
      [of "\<lparr>output' = Some ''ok'', error = None, base64Image = Some ''AAAA'', system = None,
            mediaType = Some image_jpeg\<rparr>" "[]" "''toolu_1''" "''ok''" "''AAAA''"]
    makeApiToolResult_content
      [of "\<lparr>output' = Some ''ok'', error = Some ''boom'', base64Image = Some ''AAAA'',
            system = None, mediaType = None\<rparr>" "''boom''" "''toolu_2''" "[]" "[]"]
    makeApiToolResult_content
      [of "\<lparr>output' = None, error = None, base64Image = None, system = None, mediaType = None\<rparr>"
          "[]" "''toolu_3''" "[]" "[]"]
  by (simp add: maybePrependSystemToolResult_def)

text \<open>
  C10. When the system note is set (the source's test: not \<^verbatim>\<open>undefined\<close>, \<^verbatim>\<open>null\<close>
  or empty), the text item of the assembled block is \<^verbatim>\<open><system>\<close>, the note,
  \<^verbatim>\<open></system>\<close>, a newline and then the original text: the error when the error is
  set, the output otherwise. When the note is not set the text is the original one.
  The image item holds the image data as given, whatever the note is.
\<close>

theorem system_note_prefix:
  "(truthy (system r) = Some s \<and> truthy (error r) = Some e \<longrightarrow>
      result_items (makeApiToolResult r tid)
        = [TextItem (''<system>'' @ s @ ''</system>'' @ [CHR 0x0A] @ e)])
   \<and> (truthy (system r) = Some s \<and> truthy (error r) = None \<and> truthy (output' r) = Some out \<longrightarrow>
      filter (\<lambda>i. \<not> is_image_item i) (result_items (makeApiToolResult r tid))
        = [TextItem (''<system>'' @ s @ ''</system>'' @ [CHR 0x0A] @ out)])
   \<and> (truthy (system r) = None \<and> truthy (error r) = Some e \<longrightarrow>
      result_items (makeApiToolResult r tid) = [TextItem e])
   \<and> (truthy (system r) = None \<and> truthy (error r) = None \<and> truthy (output' r) = Some out \<longrightarrow>
      filter (\<lambda>i. \<not> is_image_item i) (result_items (makeApiToolResult r tid)) = [TextItem out])
   \<and> (truthy (error r) = None \<and> truthy (base64Image r) = Some img \<longrightarrow>
      filter is_image_item (result_items (makeApiToolResult r tid))
        = [ImageItem (case mediaType r of Some m \<Rightarrow> m | None \<Rightarrow> image_png) img])"
proof -
  have prefixed: "maybePrependSystemToolResult r body
      = ''<system>'' @ s @ ''</system>'' @ [CHR 0x0A] @ body"
    if "truthy (system r) = Some s" for body
    using that by (simp add: maybePrependSystemToolResult_def)
  have plain: "maybePrependSystemToolResult r body = body" if "truthy (system r) = None" for body
    using that by (simp add: maybePrependSystemToolResult_def)
  show ?thesis
  proof (cases "truthy (error r)")
    case None
    then show ?thesis
      by (cases "truthy (output' r)"; cases "truthy (base64Image r)")
         (auto simp: makeApiToolResult_def prefixed plain)
  next
    case (Some e')
    then show ?thesis by (auto simp: makeApiToolResult_def prefixed plain)
  qed
qed

theorem system_note_prefix_witness:
  "result_items (makeApiToolResult
       \<lparr>output' = Some ''ok'', error = Some ''boom'', base64Image = None,
        system = Some ''note'', mediaType = None\<rparr> ''toolu_1'')
     = [TextItem (''<system>note</system>'' @ [CHR 0x0A] @ ''boom'')]
   \<and> filter (\<lambda>i. \<not> is_image_item i) (result_items (makeApiToolResult
       \<lparr>output' = Some ''ok'', error = None, base64Image = Some ''AAAA'',
        system = Some ''note'', mediaType = None\<rparr> ''toolu_2''))
     = [TextItem (''<system>note</system>'' @ [CHR 0x0A] @ ''ok'')]
   \<and> filter is_image_item (result_items (makeApiToolResult
       \<lparr>output' = Some ''ok'', error = None, base64Image = Some ''AAAA'',
        system = Some ''note'', mediaType = None\<rparr> ''toolu_2''))
     = [ImageItem image_png ''AAAA'']
   \<and> filter (\<lambda>i. \<not> is_image_item i) (result_items (makeApiToolResult
       \<lparr>output' = Some ''ok'', error = None, base64Image = None,
        system = None, mediaType = None\<rparr> ''toolu_3''))
     = [TextItem ''ok'']"
  using
    system_note_prefix
      [of "\<lparr>output' = Some ''ok'', error = Some ''boom'', base64Image = None,
            system = Some ''note'', mediaType = None\<rparr>" "''note''" "''boom''" "''toolu_1''"
          "[]" "[]"]
    system_note_prefix
      [of "\<lparr>output' = Some ''ok'', error = None, base64Image = Some ''AAAA'',
            system = Some ''note'', mediaType = None\<rparr>" "''note''" "[]" "''toolu_2''"
          "''ok''" "''AAAA''"]
    system_note_prefix
      [of "\<lparr>output' = Some ''ok'', error = None, base64Image = None,
            system = None, mediaType = None\<rparr>" "[]" "[]" "''toolu_3''" "''ok''" "[]"]
  by simp

section \<open>Properties of the Context Window Trimmer\<close>

lemma remove_images_nonpos: "n \<le> 0 \<Longrightarrow> remove_images xs n = (xs, n)"
  by (induction xs) auto

lemma remove_images_no_images:
  "filter is_image_item xs = [] \<Longrightarrow> remove_images xs n = (xs, n)"
  by (induction xs arbitrary: n) (auto split: if_splits)

lemma remove_images_images:
  "0 \<le> n \<Longrightarrow> filter is_image_item (fst (remove_images xs n)) = drop (nat n) (filter is_image_item xs)"
proof (induction xs arbitrary: n)
  case Nil
  then show ?case by simp
next
  case (Cons x xs)
  show ?case
  proof (cases "is_image_item x \<and> n > 0")
    case True
    then have "nat n = Suc (nat (n - 1))" by arith
    with True Cons.IH[of "n - 1"] show ?thesis by simp
  next
    case False
    with Cons.prems have "\<not> is_image_item x \<or> n = 0" by auto
    then show ?thesis
      using Cons.IH[of n] Cons.prems by (auto split: prod.splits simp: remove_images_nonpos)
  qed
qed

lemma remove_images_counter:
  "0 \<le> n \<Longrightarrow> snd (remove_images xs n) = max 0 (n - int (length (filter is_image_item xs)))"
proof (induction xs arbitrary: n)
  case Nil
  then show ?case by simp
next
  case (Cons x xs)
  show ?case
  proof (cases "is_image_item x \<and> n > 0")
    case True
    with Cons.IH[of "n - 1"] show ?thesis by simp
  next
    case False
    with Cons.prems have "\<not> is_image_item x \<or> n = 0" by auto
    then show ?thesis
      using Cons.IH[of n] Cons.prems by (auto split: prod.splits simp: remove_images_nonpos)
  qed
qed

lemma only_images_deleted_refl: "only_images_deleted xs xs"
  by (induction xs) auto

lemma remove_images_deleted: "only_images_deleted xs (fst (remove_images xs n))"
proof (induction xs arbitrary: n)
  case Nil
  then show ?case by simp
next
  case (Cons x xs)
  show ?case
  proof (cases "is_image_item x \<and> n > 0")
    case True
    have "only_images_deleted xs (fst (remove_images xs (n - 1)))" by (rule Cons.IH)
    with True show ?thesis by (cases "fst (remove_images xs (n - 1))") auto
  next
    case False
    then show ?thesis using Cons.IH[of n] by (auto split: prod.splits)
  qed
qed


lemma block_images_Nil: "block_images [] = []"
  by (simp add: block_images_def)

lemma block_images_Cons:
  "block_images (b # bs) = filter is_image_item (result_items b) @ block_images bs"
  by (cases b rule: result_items.cases) (simp_all add: block_images_def)

lemma trim_block_images:
  "0 \<le> n \<Longrightarrow> filter is_image_item (result_items (fst (trim_block b n)))
     = drop (nat n) (filter is_image_item (result_items b))"
  by (cases "(b, n)" rule: trim_block.cases) (auto simp: remove_images_images split_beta)

lemma trim_block_counter:
  "0 \<le> n \<Longrightarrow> snd (trim_block b n)
     = max 0 (n - int (length (filter is_image_item (result_items b))))"
  by (cases "(b, n)" rule: trim_block.cases) (auto simp: remove_images_counter split_beta)

lemma trim_block_trimmed: "block_trimmed b (fst (trim_block b n))"
  by (cases "(b, n)" rule: trim_block.cases)
     (auto simp: remove_images_deleted split_beta)

lemma trim_block_no_images:
  "filter is_image_item (result_items b) = [] \<Longrightarrow> trim_block b n = (b, n)"
  by (cases "(b, n)" rule: trim_block.cases) (auto simp: remove_images_no_images)

lemma trim_blocks_counter:
  "0 \<le> n \<Longrightarrow> snd (trim_blocks bs n) = max 0 (n - int (length (block_images bs)))"
proof (induction bs arbitrary: n)
  case Nil
  then show ?case by (simp add: block_images_Nil)
next
  case (Cons b bs)
  let ?n' = "snd (trim_block b n)"
  have n': "?n' = max 0 (n - int (length (filter is_image_item (result_items b))))"
    using Cons.prems by (rule trim_block_counter)
  then have "0 \<le> ?n'" by simp
  then have "snd (trim_blocks bs ?n') = max 0 (?n' - int (length (block_images bs)))"
    by (rule Cons.IH)
  then show ?case
    using n' by (auto simp: block_images_Cons split_beta)
qed

lemma trim_blocks_images:
  "0 \<le> n \<Longrightarrow> block_images (fst (trim_blocks bs n)) = drop (nat n) (block_images bs)"
proof (induction bs arbitrary: n)
  case Nil
  then show ?case by (simp add: block_images_Nil)
next
  case (Cons b bs)
  let ?n' = "snd (trim_block b n)"
  have n': "?n' = max 0 (n - int (length (filter is_image_item (result_items b))))"
    using Cons.prems by (rule trim_block_counter)
  then have "0 \<le> ?n'" by simp
  then have IH: "block_images (fst (trim_blocks bs ?n')) = drop (nat ?n') (block_images bs)"
    by (rule Cons.IH)
  have nat: "nat ?n' = nat n - length (filter is_image_item (result_items b))"
    using n' Cons.prems by auto
  show ?case
    using IH trim_block_images[OF Cons.prems, of b] nat
    by (auto simp: block_images_Cons split_beta)
qed

lemma trim_blocks_trimmed: "blocks_trimmed bs (fst (trim_blocks bs n))"
proof (induction bs arbitrary: n)
  case Nil
  then show ?case by simp
next
  case (Cons b bs)
  show ?case
    using trim_block_trimmed[of b n] Cons.IH[of "snd (trim_block b n)"]
    by (auto simp: split_beta)
qed

lemma trim_blocks_no_images:
  "block_images bs = [] \<Longrightarrow> trim_blocks bs n = (bs, n)"
  by (induction bs arbitrary: n) (auto simp: block_images_Cons trim_block_no_images)

lemma images_Nil: "images [] = []"
  by (simp add: images_def toolResultBlocks_def)

lemma images_Cons: "images (m # ms) = block_images (message_blocks m) @ images ms"
  by (simp add: images_def toolResultBlocks_def block_images_def)

lemma trim_message_counter:
  "0 \<le> n \<Longrightarrow> snd (trim_message m n) = max 0 (n - int (length (block_images (message_blocks m))))"
  by (cases "content m") (auto simp: block_images_Nil trim_blocks_counter split_beta)

lemma trim_message_images:
  "0 \<le> n \<Longrightarrow> block_images (message_blocks (fst (trim_message m n)))
     = drop (nat n) (block_images (message_blocks m))"
  by (cases "content m") (auto simp: block_images_Nil trim_blocks_images split_beta)

lemma trim_message_trimmed: "message_trimmed m (fst (trim_message m n))"
  by (cases "content m") (auto simp: trim_blocks_trimmed split_beta)

lemma trim_message_no_images:
  "block_images (message_blocks m) = [] \<Longrightarrow> trim_message m n = (m, n)"
  by (cases "content m") (auto simp: trim_blocks_no_images)

lemma trim_messages_counter:
  "0 \<le> n \<Longrightarrow> snd (trim_messages ms n) = max 0 (n - int (length (images ms)))"
proof (induction ms arbitrary: n)
  case Nil
  then show ?case by (simp add: images_Nil)
next
  case (Cons m ms)
  let ?n' = "snd (trim_message m n)"
  have n': "?n' = max 0 (n - int (length (block_images (message_blocks m))))"
    using Cons.prems by (rule trim_message_counter)
  then have "0 \<le> ?n'" by simp
  then have "snd (trim_messages ms ?n') = max 0 (?n' - int (length (images ms)))"
    by (rule Cons.IH)
  then show ?case
    using n' by (auto simp: images_Cons split_beta simp del: trim_message.simps)
qed

lemma trim_messages_images:
  "0 \<le> n \<Longrightarrow> images (fst (trim_messages ms n)) = drop (nat n) (images ms)"
proof (induction ms arbitrary: n)
  case Nil
  then show ?case by (simp add: images_Nil)
next
  case (Cons m ms)
  let ?n' = "snd (trim_message m n)"
  have n': "?n' = max 0 (n - int (length (block_images (message_blocks m))))"
    using Cons.prems by (rule trim_message_counter)
  then have "0 \<le> ?n'" by simp
  then have IH: "images (fst (trim_messages ms ?n')) = drop (nat ?n') (images ms)"
    by (rule Cons.IH)
  have nat: "nat ?n' = nat n - length (block_images (message_blocks m))"
    using n' Cons.prems by auto
  show ?case
    using IH trim_message_images[OF Cons.prems, of m] nat
    by (auto simp: images_Cons split_beta simp del: trim_message.simps message_blocks.simps)
qed

lemma trim_messages_trimmed: "conversation_trimmed ms (fst (trim_messages ms n))"
proof (induction ms arbitrary: n)
  case Nil
  then show ?case by simp
next
  case (Cons m ms)
  show ?case
    using trim_message_trimmed[of m n] Cons.IH[of "snd (trim_message m n)"]
    by (auto simp: split_beta simp del: trim_message.simps message_trimmed.simps)
qed

lemma trim_messages_no_images: "images ms = [] \<Longrightarrow> trim_messages ms n = (ms, n)"
  by (induction ms arbitrary: n)
     (auto simp: images_Cons trim_message_no_images simp del: trim_message.simps message_blocks.simps)

lemma fold_count:
  "fold (\<lambda>result count. count + int (length (filter is_image_item (result_items result)))) bs a
     = a + int (length (filter is_image_item (concat (map result_items bs))))"
  by (induction bs arbitrary: a) auto

lemma totalImages_images: "totalImages ms = int (length (images ms))"
  by (simp add: totalImages_def images_def fold_count)

lemma filter_zero_threshold: "filterNMostRecentImages ms keep 0 = ms"
  by (simp add: filterNMostRecentImages_def js_rem_def)

lemma filter_unfold:
  assumes "thr \<noteq> 0"
  shows "filterNMostRecentImages ms keep thr =
     (if (totalImages ms - keep) - sgn (totalImages ms - keep) * (\<bar>totalImages ms - keep\<bar> mod \<bar>thr\<bar>) \<le> 0
      then ms
      else fst (trim_messages ms
             ((totalImages ms - keep) - sgn (totalImages ms - keep) * (\<bar>totalImages ms - keep\<bar> mod \<bar>thr\<bar>))))"
  using assms by (simp add: filterNMostRecentImages_def js_rem_def Let_def)

lemma rounded_pos:
  fixes e thr :: int
  assumes "thr \<noteq> 0" and "e - sgn e * (\<bar>e\<bar> mod \<bar>thr\<bar>) > 0"
  shows "e > 0"
proof (rule ccontr)
  assume "\<not> e > 0"
  then have e: "e \<le> 0" by simp
  have "\<bar>e\<bar> mod \<bar>thr\<bar> \<le> \<bar>e\<bar>" by (rule zmod_le_nonneg_dividend) simp
  with e have "e - sgn e * (\<bar>e\<bar> mod \<bar>thr\<bar>) \<le> 0"
    by (cases "e = 0") (auto simp: sgn_if)
  with assms(2) show False by simp
qed

lemma rounded_of_pos:
  fixes e thr :: int
  assumes "e > 0"
  shows "e - sgn e * (\<bar>e\<bar> mod \<bar>thr\<bar>) = e - e mod \<bar>thr\<bar>"
  using assms by simp

lemma filter_no_images: "images ms = [] \<Longrightarrow> filterNMostRecentImages ms keep thr = ms"
  by (simp add: filterNMostRecentImages_def Let_def trim_messages_no_images split: option.splits)

lemma trim_block_nonpos: "n \<le> 0 \<Longrightarrow> trim_block b n = (b, n)"
  by (cases "(b, n)" rule: trim_block.cases) (auto simp: remove_images_nonpos)

lemma trim_blocks_nonpos: "n \<le> 0 \<Longrightarrow> trim_blocks bs n = (bs, n)"
  by (induction bs) (auto simp: trim_block_nonpos)

lemma trim_messages_nonpos: "n \<le> 0 \<Longrightarrow> trim_messages ms n = (ms, n)"
  by (induction ms) (auto simp: trim_blocks_nonpos split: message_content.splits)

lemma conversation_trimmed_refl: "conversation_trimmed ms ms"
  using trim_messages_trimmed[of ms 0] by (simp add: trim_messages_nonpos)

lemma filter_trimmed: "conversation_trimmed ms (filterNMostRecentImages ms keep thr)"
  by (simp add: filterNMostRecentImages_def Let_def conversation_trimmed_refl
        trim_messages_trimmed split: option.splits)

lemma filter_trim_cases:
  assumes "thr \<noteq> 0"
  obtains (same) "filterNMostRecentImages ms keep thr = ms"
      "totalImages ms - keep - sgn (totalImages ms - keep) * (\<bar>totalImages ms - keep\<bar> mod \<bar>thr\<bar>) \<le> 0"
    | (trim) n where "filterNMostRecentImages ms keep thr = fst (trim_messages ms n)"
      "0 < n" "0 < totalImages ms - keep"
      "n = (totalImages ms - keep) - (totalImages ms - keep) mod \<bar>thr\<bar>"
proof -
  define e where "e = totalImages ms - keep"
  define n where "n = e - sgn e * (\<bar>e\<bar> mod \<bar>thr\<bar>)"
  have F: "filterNMostRecentImages ms keep thr = (if n \<le> 0 then ms else fst (trim_messages ms n))"
    using assms unfolding n_def e_def by (rule filter_unfold)
  show thesis
  proof (cases "n \<le> 0")
    case True
    show thesis
      by (rule same) (use True F in \<open>simp_all add: n_def e_def\<close>)
  next
    case False
    then have pos: "0 < n" by simp
    then have e: "0 < e" unfolding n_def using assms by (rule rounded_pos[of thr, rotated])
    then have "n = e - e mod \<bar>thr\<bar>" by (simp add: n_def)
    then show thesis
      using F pos e unfolding e_def by (intro trim[of n]) simp_all
  qed
qed

lemma trim_messages_total:
  assumes "0 < n"
  shows "totalImages (fst (trim_messages ms n)) = max 0 (totalImages ms - n)"
proof -
  have "images (fst (trim_messages ms n)) = drop (nat n) (images ms)"
    using assms by (intro trim_messages_images) simp
  then show ?thesis
    using assms by (simp add: totalImages_images)
qed

lemma filter_images:
  "images (filterNMostRecentImages ms keep thr)
     = drop (nat (totalImages ms - totalImages (filterNMostRecentImages ms keep thr))) (images ms)"
proof (cases "thr = 0")
  case True
  then show ?thesis by (simp add: filter_zero_threshold)
next
  case False
  then show ?thesis
  proof (cases rule: filter_trim_cases[of thr ms keep])
    case same
    then show ?thesis by simp
  next
    case (trim n)
    have im: "images (fst (trim_messages ms n)) = drop (nat n) (images ms)"
      using trim(2) by (intro trim_messages_images) simp
    have "nat (totalImages ms - totalImages (fst (trim_messages ms n)))
            = min (nat n) (length (images ms))"
      using trim(2) by (simp add: trim_messages_total) (simp add: totalImages_images)
    then show ?thesis
      unfolding trim(1) im by (simp add: min_def)
  qed
qed

lemma filter_count:
  assumes "0 \<le> keep" and "1 \<le> thr"
  shows "totalImages ms - totalImages (filterNMostRecentImages ms keep thr)
           = (if keep < totalImages ms
              then (totalImages ms - keep) - (totalImages ms - keep) mod thr else 0)"
proof -
  define e where "e = totalImages ms - keep"
  have thr: "thr \<noteq> 0" "\<bar>thr\<bar> = thr" using assms by auto
  from thr(1) show ?thesis
  proof (cases rule: filter_trim_cases[of thr ms keep])
    case same
    have "0 < e \<Longrightarrow> e - e mod thr = 0"
    proof -
      assume e: "0 < e"
      then have "e - sgn e * (\<bar>e\<bar> mod \<bar>thr\<bar>) = e - e mod thr" using thr by simp
      moreover have "e mod thr \<le> e" using e by (intro zmod_le_nonneg_dividend) simp
      ultimately show ?thesis using same(2) unfolding e_def by linarith
    qed
    then show ?thesis using same(1) unfolding e_def by auto
  next
    case (trim n)
    have n: "n = e - e mod thr" using trim(4) thr by (simp add: e_def)
    have "0 \<le> e mod thr" using assms by simp
    then have "n \<le> totalImages ms" using n assms unfolding e_def by linarith
    then have "totalImages (fst (trim_messages ms n)) = totalImages ms - n"
      using trim(2) by (simp add: trim_messages_total)
    then show ?thesis using trim(1,3) n unfolding e_def by simp
  qed
qed

lemma filter_idem:
  "filterNMostRecentImages (filterNMostRecentImages ms keep thr) keep thr
     = filterNMostRecentImages ms keep thr"
proof (cases "thr = 0")
  case True
  then show ?thesis by (simp add: filter_zero_threshold)
next
  case thr: False
  then show ?thesis
  proof (cases rule: filter_trim_cases[of thr ms keep])
    case same
    then show ?thesis by simp
  next
    case (trim n)
    define ms' where "ms' = fst (trim_messages ms n)"
    define e where "e = totalImages ms - keep"
    have post: "totalImages ms' = max 0 (totalImages ms - n)"
      unfolding ms'_def using trim(2) by (rule trim_messages_total)
    have "filterNMostRecentImages ms' keep thr = ms'"
    proof (cases "images ms' = []")
      case True
      then show ?thesis by (rule filter_no_images)
    next
      case False
      then have "0 < totalImages ms'" by (simp add: totalImages_images)
      with post have post': "totalImages ms' = totalImages ms - n" by simp
      define e' where "e' = totalImages ms' - keep"
      have e': "e' = e mod \<bar>thr\<bar>" using post' trim(4) by (simp add: e'_def e_def)
      have bounds: "0 \<le> e'" "e' < \<bar>thr\<bar>" using thr by (simp_all add: e')
      then have "\<bar>e'\<bar> mod \<bar>thr\<bar> = e'" by simp
      then have "e' - sgn e' * (\<bar>e'\<bar> mod \<bar>thr\<bar>) \<le> 0"
        using bounds(1) by (cases "e' = 0") (simp_all add: sgn_if)
      then show ?thesis
        using thr unfolding e'_def by (subst filter_unfold) simp_all
    qed
    then show ?thesis by (simp add: trim(1) ms'_def)
  qed
qed

lemma images_screenshots: "images (screenshots n) = replicate n (ImageItem image_png ''AAAA'')"
  by (simp add: images_def screenshots_def toolResultBlocks_def)

lemma totalImages_screenshots: "totalImages (screenshots n) = int n"
  by (simp add: totalImages_images images_screenshots)

text \<open>
  C5 (amended). For \<open>keep \<ge> 0\<close> and \<open>minRemovalThreshold \<ge> 1\<close>, one application of the
  trimmer removes a number of images that is non-negative, a multiple of
  \<open>minRemovalThreshold\<close>, and at most the excess \<open>totalImages - keep\<close> when that excess is
  positive, and zero otherwise; it is the excess rounded down to a multiple of
  \<open>minRemovalThreshold\<close>. With 25 images, \<open>keep = 10\<close> and a threshold of 10, 15 remain.
\<close>

theorem trimmer_removal_bound:
  assumes "0 \<le> keep" and "1 \<le> minRemovalThreshold"
  shows "0 \<le> totalImages ms - totalImages (filterNMostRecentImages ms keep minRemovalThreshold)
    \<and> minRemovalThreshold dvd
          (totalImages ms - totalImages (filterNMostRecentImages ms keep minRemovalThreshold))
    \<and> totalImages ms - totalImages (filterNMostRecentImages ms keep minRemovalThreshold)
          \<le> max 0 (totalImages ms - keep)
    \<and> totalImages ms - totalImages (filterNMostRecentImages ms keep minRemovalThreshold)
          = (if keep < totalImages ms
             then (totalImages ms - keep) - (totalImages ms - keep) mod minRemovalThreshold
             else 0)"
proof -
  define e where "e = totalImages ms - keep"
  define d where
    "d = totalImages ms - totalImages (filterNMostRecentImages ms keep minRemovalThreshold)"
  have d: "d = (if 0 < e then e - e mod minRemovalThreshold else 0)"
    unfolding d_def e_def using filter_count[OF assms, of ms] by simp
  have m: "0 \<le> e mod minRemovalThreshold" using assms by simp
  have le: "0 < e \<Longrightarrow> e mod minRemovalThreshold \<le> e"
    by (rule zmod_le_nonneg_dividend) simp
  have dvd: "minRemovalThreshold dvd e - e mod minRemovalThreshold"
    by (simp add: minus_mod_eq_mult_div)
  have "0 \<le> d" using d le by auto
  moreover have "minRemovalThreshold dvd d" using d dvd by auto
  moreover have "d \<le> max 0 e" using d m by auto
  moreover have "d = (if keep < totalImages ms then e - e mod minRemovalThreshold else 0)"
    using d by (simp add: e_def)
  ultimately show ?thesis unfolding d_def e_def by blast
qed

theorem trimmer_removal_bound_witness:
  "totalImages (screenshots 25) = 25
   \<and> totalImages (filterNMostRecentImages (screenshots 25) 10 10) = 15"
  using trimmer_removal_bound[of 10 10 "screenshots 25"]
  by (simp add: totalImages_screenshots)

text \<open>
  C5, as the specification states it. The bound, at most \<open>totalImages - keep\<close>, fails when the
  conversation has fewer images than \<open>keep\<close>: with 5 images and \<open>keep = 10\<close> nothing is
  removed, and \<open>0\<close> is not at most \<open>-5\<close>.
\<close>

theorem trimmer_removal_bound_counterexample:
  "\<not> (totalImages (screenshots 5) - totalImages (filterNMostRecentImages (screenshots 5) 10 10)
        \<le> totalImages (screenshots 5) - 10)"
  using filter_count[of 10 10 "screenshots 5"]
  by (simp add: totalImages_screenshots)

text \<open>
  C6. Applying the trimmer twice with the same parameters gives what one application
  gives. The images that remain are the conversation's images without the oldest ones
  (a suffix of the sequence of images in conversation order), and nothing but image
  items of tool results is deleted. For \<open>keep \<ge> 0\<close> and \<open>minRemovalThreshold \<ge> 1\<close> the
  remaining count is at most \<open>keep + (minRemovalThreshold - 1)\<close>, and it is at least
  \<open>keep\<close> unless the conversation had fewer images than that, which then all remain.
\<close>

theorem trimmer_idempotent:
  "filterNMostRecentImages (filterNMostRecentImages ms keep minRemovalThreshold) keep minRemovalThreshold
     = filterNMostRecentImages ms keep minRemovalThreshold
   \<and> images (filterNMostRecentImages ms keep minRemovalThreshold)
       = drop (nat (totalImages ms - totalImages (filterNMostRecentImages ms keep minRemovalThreshold)))
           (images ms)
   \<and> conversation_trimmed ms (filterNMostRecentImages ms keep minRemovalThreshold)
   \<and> (0 \<le> keep \<and> 1 \<le> minRemovalThreshold \<longrightarrow>
        totalImages (filterNMostRecentImages ms keep minRemovalThreshold)
          \<le> keep + (minRemovalThreshold - 1)
        \<and> min keep (totalImages ms)
          \<le> totalImages (filterNMostRecentImages ms keep minRemovalThreshold))"
proof -
  have bounds: "totalImages (filterNMostRecentImages ms keep minRemovalThreshold)
          \<le> keep + (minRemovalThreshold - 1)
        \<and> min keep (totalImages ms)
          \<le> totalImages (filterNMostRecentImages ms keep minRemovalThreshold)"
    if k: "0 \<le> keep" and t: "1 \<le> minRemovalThreshold"
  proof -
    define e where "e = totalImages ms - keep"
    define post where "post = totalImages (filterNMostRecentImages ms keep minRemovalThreshold)"
    have d: "totalImages ms - post = (if 0 < e then e - e mod minRemovalThreshold else 0)"
      unfolding post_def e_def using filter_count[OF k t, of ms] by simp
    have "0 \<le> e mod minRemovalThreshold" "e mod minRemovalThreshold < minRemovalThreshold"
      using t by simp_all
    then have "post \<le> keep + (minRemovalThreshold - 1) \<and> min keep (totalImages ms) \<le> post"
      using d unfolding e_def by (auto split: if_splits)
    then show ?thesis unfolding post_def .
  qed
  show ?thesis
    using filter_idem[of ms keep minRemovalThreshold] filter_images[of ms keep minRemovalThreshold]
      filter_trimmed[of ms keep minRemovalThreshold] bounds
    by blast
qed

theorem trimmer_idempotent_witness:
  "filterNMostRecentImages (filterNMostRecentImages (screenshots 25) 10 10) 10 10
     = filterNMostRecentImages (screenshots 25) 10 10
   \<and> images (filterNMostRecentImages (screenshots 25) 10 10)
       = drop (nat (25 - totalImages (filterNMostRecentImages (screenshots 25) 10 10)))
           (images (screenshots 25))
   \<and> conversation_trimmed (screenshots 25) (filterNMostRecentImages (screenshots 25) 10 10)
   \<and> totalImages (filterNMostRecentImages (screenshots 25) 10 10) \<le> 19
   \<and> 10 \<le> totalImages (filterNMostRecentImages (screenshots 25) 10 10)"
  using trimmer_idempotent[of "screenshots 25" 10 10]
  by (simp add: totalImages_screenshots)

section \<open>Properties of the Registry and the Orchestration Loop\<close>

lemma map_of_Map_set: "map_of (Map_set m k v) = (map_of m)(k \<mapsto> v)"
  by (induction m k v rule: Map_set.induct) (auto simp: fun_upd_twist)

lemma map_of_fold_Map_set:
  "map_of (fold (\<lambda>t m. Map_set m (name (toParams t)) t) tools m0) nm = None
   \<longleftrightarrow> map_of m0 nm = None \<and> nm \<notin> (\<lambda>t. name (toParams t)) ` set tools"
  by (induction tools arbitrary: m0) (auto simp: map_of_Map_set)

lemma new_ToolCollection_absent:
  "map_of (new_ToolCollection tools) nm = None \<longleftrightarrow> nm \<notin> (\<lambda>t. name (toParams t)) ` set tools"
  by (simp add: new_ToolCollection_def map_of_fold_Map_set)

lemma ToolCollection_run_returns:
  "\<exists>result w'. ToolCollection_run toolMap nm inp w = (Inr result, w')"
  by (auto simp: ToolCollection_run_def split: option.splits prod.splits sum.splits exn.splits)

lemma dispatch_blocks_results:
  "\<exists>results w'. dispatch_blocks L opts bs acc w = (Inr (acc @ results), w')
     \<and> answers bs results"
proof (induction bs arbitrary: acc w)
  case Nil
  show ?case by (simp add: answers_def)
next
  case (Cons b bs)
  show ?case
  proof (cases b)
    case (ToolUse tid nm inp)
    obtain result w2 where
      r: "ToolCollection_run (toolCollection L) nm inp (outputCallback opts b w) = (Inr result, w2)"
      using ToolCollection_run_returns[of "toolCollection L" nm inp "outputCallback opts b w"]
      by auto
    obtain results w' where
      d: "dispatch_blocks L opts bs ((acc @ [makeApiToolResult result tid]))
            (toolOutputCallback opts result tid w2) = (Inr ((acc @ [makeApiToolResult result tid]) @ results), w')"
      and a: "answers bs results"
      using Cons.IH[of "acc @ [makeApiToolResult result tid]" "toolOutputCallback opts result tid w2"]
      by auto
    have "dispatch_blocks L opts (b # bs) acc w
            = (Inr (acc @ (makeApiToolResult result tid # results)), w')"
      using ToolUse r d by (simp add: Let_def)
    moreover have "answers (b # bs) (makeApiToolResult result tid # results)"
      using a ToolUse by (simp add: answers_def makeApiToolResult_def split: option.splits)
    ultimately show ?thesis by blast
  next
    case (Text x)
    then show ?thesis using Cons.IH[of acc "outputCallback opts b w"]
      by (simp add: answers_def)
  next
    case (Image x y)
    then show ?thesis using Cons.IH[of acc "outputCallback opts b w"]
      by (simp add: answers_def)
  next
    case (ToolResultBlock x y z)
    then show ?thesis using Cons.IH[of acc "outputCallback opts b w"]
      by (simp add: answers_def)
  next
    case (OtherBlock x)
    then show ?thesis using Cons.IH[of acc "outputCallback opts b w"]
      by (simp add: answers_def)
  qed
qed

lemma answers_length: "answers response results \<Longrightarrow> length results = length (request_ids response)"
  unfolding answers_def by (metis length_map)

lemma answers_Nil: "answers response results \<Longrightarrow> results = [] \<longleftrightarrow> request_ids response = []"
  using answers_length by fastforce

lemma turn_cases:
  obtains
    (throw) e w1 where "client L (make_request L opts sys msgs) w = (Inl e, w1)"
      "turn L opts sys msgs w = Throw e w1"
  | (return) response w1 w3 where "client L (make_request L opts sys msgs) w = (Inr response, w1)"
      "request_ids response = []"
      "turn L opts sys msgs w = Return (msgs @ [\<lparr>role = assistant, content = Blocks response\<rparr>]) w3"
  | (continue) response w1 results w3 where
      "client L (make_request L opts sys msgs) w = (Inr response, w1)"
      "request_ids response \<noteq> []" "answers response results"
      "turn L opts sys msgs w =
         Continue (msgs @ [\<lparr>role = assistant, content = Blocks response\<rparr>,
                           \<lparr>role = user, content = Blocks results\<rparr>]) w3"
proof (cases "client L (make_request L opts sys msgs) w")
  case (Pair r w1)
  show thesis
  proof (cases r)
    case (Inl e)
    with Pair show thesis by (intro throw[of e w1]) (simp_all add: turn_def)
  next
    case (Inr response)
    obtain results w3 where
      d: "dispatch_blocks L opts response [] (apiResponseCallback opts response w1)
            = (Inr ([] @ results), w3)" and a: "answers response results"
      using dispatch_blocks_results[of L opts response "[]" "apiResponseCallback opts response w1"]
      by auto
    show thesis
    proof (cases "results = []")
      case True
      then have "request_ids response = []" using a answers_Nil by blast
      moreover have "turn L opts sys msgs w
          = Return (msgs @ [\<lparr>role = assistant, content = Blocks response\<rparr>]) w3"
        using Pair Inr d True by (simp add: turn_def Let_def)
      ultimately show thesis using Pair Inr by (intro return[of response w1 w3]) simp_all
    next
      case False
      then have "request_ids response \<noteq> []" using a answers_Nil by blast
      moreover have "turn L opts sys msgs w
          = Continue (msgs @ [\<lparr>role = assistant, content = Blocks response\<rparr>,
                           \<lparr>role = user, content = Blocks results\<rparr>]) w3"
        using Pair Inr d False by (simp add: turn_def Let_def)
      ultimately show thesis using Pair Inr a by (intro continue[of response w1 results w3]) simp_all
    qed
  qed
qed

lemma loop_state_Suc_back:
  "loop_state L opts sys msgs w (Suc n) =
     (case loop_state L opts sys msgs w n of
        None \<Rightarrow> None
      | Some (ms, w') \<Rightarrow>
          (case turn L opts sys ms w' of Continue ms' w'' \<Rightarrow> Some (ms', w'') | _ \<Rightarrow> None))"
proof (induction n arbitrary: msgs w)
  case 0
  show ?case by (simp split: turn_result.splits)
next
  case (Suc n)
  show ?case
  proof (cases "turn L opts sys msgs w")
    case (Continue msgs' w')
    then show ?thesis using Suc.IH[of msgs' w'] by simp
  qed simp_all
qed

lemma run_loop_steps:
  "loop_state L opts sys msgs w n = Some (ms, w')
     \<Longrightarrow> run_loop L opts sys msgs w = run_loop L opts sys ms w'"
proof (induction n arbitrary: msgs w)
  case 0
  then show ?case by simp
next
  case (Suc n)
  then obtain msgs' w1 where t: "turn L opts sys msgs w = Continue msgs' w1"
    and s: "loop_state L opts sys msgs' w1 n = Some (ms, w')"
    by (auto split: turn_result.splits)
  have "run_loop L opts sys msgs w = run_loop L opts sys msgs' w1"
    by (subst run_loop.simps) (simp add: t)
  also have "\<dots> = run_loop L opts sys ms w'" using s by (rule Suc.IH)
  finally show ?case .
qed

lemma run_loop_finish:
  "finish (turn L opts sys msgs w) = Some r \<Longrightarrow> run_loop L opts sys msgs w = Some r"
  by (subst run_loop.simps) (auto split: turn_result.splits)

lemma run_loop_ends:
  assumes "run_loop L opts sys msgs w = Some r"
  shows "\<exists>n ms w'. loop_state L opts sys msgs w n = Some (ms, w')
           \<and> finish (turn L opts sys ms w') = Some r"
proof (rule run_loop.raw_induct
    [where P = "\<lambda>L opts sys msgs w r. \<exists>n ms w'. loop_state L opts sys msgs w n = Some (ms, w')
                   \<and> finish (turn L opts sys ms w') = Some r", OF _ assms])
  fix f :: "'a SamplingLoop \<Rightarrow> 'a SamplingLoopOptions \<Rightarrow> string \<Rightarrow> message list \<Rightarrow> 'a
     \<Rightarrow> ((exn + message list) \<times> 'a) option"
  fix L opts sys msgs w r
  assume IH: "\<And>L opts sys msgs w y. f L opts sys msgs w = Some y \<Longrightarrow>
     \<exists>n ms w'. loop_state L opts sys msgs w n = Some (ms, w')
       \<and> finish (turn L opts sys ms w') = Some y"
  assume step: "(case turn L opts sys msgs w of Throw e w' \<Rightarrow> Some (Inl e, w')
      | Return msgs' w' \<Rightarrow> Some (Inr msgs', w')
      | Continue msgs' w' \<Rightarrow> f L opts sys msgs' w') = Some r"
  show "\<exists>n ms w'. loop_state L opts sys msgs w n = Some (ms, w')
           \<and> finish (turn L opts sys ms w') = Some r"
  proof (cases "turn L opts sys msgs w")
    case (Continue msgs' w1)
    with step have "f L opts sys msgs' w1 = Some r" by simp
    then obtain n ms w' where "loop_state L opts sys msgs' w1 n = Some (ms, w')"
      "finish (turn L opts sys ms w') = Some r"
      using IH[of L opts sys msgs' w1 r] by auto
    then have "loop_state L opts sys msgs w (Suc n) = Some (ms, w')
        \<and> finish (turn L opts sys ms w') = Some r"
      using Continue by simp
    then show ?thesis by (intro exI)
  next
    case (Throw e w1)
    with step have "loop_state L opts sys msgs w 0 = Some (msgs, w)
        \<and> finish (turn L opts sys msgs w) = Some r" by auto
    then show ?thesis by (intro exI)
  next
    case (Return ms w1)
    with step have "loop_state L opts sys msgs w 0 = Some (msgs, w)
        \<and> finish (turn L opts sys msgs w) = Some r" by auto
    then show ?thesis by (intro exI)
  qed
qed

lemma run_loop_reaches:
  assumes "loop_state L opts sys msgs w n = Some (ms, w')"
    and "finish (turn L opts sys ms w') = Some r"
  shows "run_loop L opts sys msgs w = Some r"
  using run_loop_steps[OF assms(1)] run_loop_finish[OF assms(2)] by simp

lemma run_loop_Some_iff:
  "run_loop L opts sys msgs w = Some r
   \<longleftrightarrow> (\<exists>n ms w'. loop_state L opts sys msgs w n = Some (ms, w')
           \<and> finish (turn L opts sys ms w') = Some r)"
proof
  assume "run_loop L opts sys msgs w = Some r"
  then show "\<exists>n ms w'. loop_state L opts sys msgs w n = Some (ms, w')
           \<and> finish (turn L opts sys ms w') = Some r"
    by (rule run_loop_ends)
next
  assume "\<exists>n ms w'. loop_state L opts sys msgs w n = Some (ms, w')
           \<and> finish (turn L opts sys ms w') = Some r"
  then obtain n ms w' where "loop_state L opts sys msgs w n = Some (ms, w')"
    "finish (turn L opts sys ms w') = Some r" by auto
  then show "run_loop L opts sys msgs w = Some r" by (rule run_loop_reaches)
qed

lemma finish_None_iff: "finish t = None \<longleftrightarrow> (\<exists>ms w. t = Continue ms w)"
  by (cases t) auto

lemma run_loop_None_iff:
  "run_loop L opts sys msgs w = None \<longleftrightarrow> (\<forall>n. loop_state L opts sys msgs w n \<noteq> None)"
proof
  assume none: "run_loop L opts sys msgs w = None"
  show "\<forall>n. loop_state L opts sys msgs w n \<noteq> None"
  proof
    fix n
    show "loop_state L opts sys msgs w n \<noteq> None"
    proof (induction n)
      case 0
      show ?case by simp
    next
      case (Suc n)
      then obtain ms w' where s: "loop_state L opts sys msgs w n = Some (ms, w')" by auto
      have "finish (turn L opts sys ms w') = None"
      proof (rule ccontr)
        assume "finish (turn L opts sys ms w') \<noteq> None"
        then obtain r where "finish (turn L opts sys ms w') = Some r" by auto
        with s have "run_loop L opts sys msgs w = Some r"
          by (rule run_loop_reaches)
        with none show False by simp
      qed
      then obtain ms' w'' where "turn L opts sys ms w' = Continue ms' w''"
        by (auto simp: finish_None_iff)
      with s show ?case by (simp add: loop_state_Suc_back del: loop_state.simps)
    qed
  qed
next
  assume all: "\<forall>n. loop_state L opts sys msgs w n \<noteq> None"
  show "run_loop L opts sys msgs w = None"
  proof (rule ccontr)
    assume "run_loop L opts sys msgs w \<noteq> None"
    then obtain r where "run_loop L opts sys msgs w = Some r" by auto
    then obtain n ms w' where s: "loop_state L opts sys msgs w n = Some (ms, w')"
      and f: "finish (turn L opts sys ms w') = Some r"
      using run_loop_ends[of L opts sys msgs w r] by auto
    from f have "loop_state L opts sys msgs w (Suc n) = None"
      using s by (cases "turn L opts sys ms w'") (simp_all add: loop_state_Suc_back del: loop_state.simps)
    with all[rule_format, of "Suc n"] show False by (simp del: loop_state.simps)
  qed
qed

lemma loop_state_invariant:
  "loop_state L opts sys msgs w n = Some (ms, w')
     \<Longrightarrow> \<exists>app. ms = msgs @ app \<and> exchanges app \<and> length app = 2 * n"
proof (induction n arbitrary: msgs w)
  case 0
  then show ?case by simp
next
  case (Suc n)
  then obtain msgs' w1 where t: "turn L opts sys msgs w = Continue msgs' w1"
    and s: "loop_state L opts sys msgs' w1 n = Some (ms, w')"
    by (auto split: turn_result.splits)
  obtain app where app: "ms = msgs' @ app" "exchanges app" "length app = 2 * n"
    using Suc.IH[OF s] by auto
  show ?case
  proof (cases rule: turn_cases[of L opts sys msgs w])
    case (throw e w1)
    with t show ?thesis by simp
  next
    case (return response w1 w3)
    with t show ?thesis by simp
  next
    case (continue response w1' results w3)
    let ?pair = "[\<lparr>role = assistant, content = Blocks response\<rparr>,
                   \<lparr>role = user, content = Blocks results\<rparr>]"
    have "msgs' = msgs @ ?pair" using t continue(4) by simp
    then have "ms = msgs @ (?pair @ app)" using app(1) by simp
    moreover have "exchanges (?pair @ app)" using continue(2,3) app(2) by simp
    moreover have "length (?pair @ app) = 2 * Suc n" using app(3) by simp
    ultimately show ?thesis by (intro exI conjI)
  qed
qed

lemma run_eq:
  "run L opts w = run_loop L opts (system_text L opts w) (entry_messages opts) w"
  by (simp add: run_def entry_messages_def system_text_def Let_def)

lemma turn_of_response:
  assumes "fst (client L (make_request L opts sys msgs) w) = Inr response"
  shows "request_ids response = [] \<Longrightarrow>
           \<exists>w3. turn L opts sys msgs w
                  = Return (msgs @ [\<lparr>role = assistant, content = Blocks response\<rparr>]) w3"
    and "request_ids response \<noteq> [] \<Longrightarrow>
           \<exists>results w3. answers response results
              \<and> turn L opts sys msgs w
                  = Continue (msgs @ [\<lparr>role = assistant, content = Blocks response\<rparr>,
                                      \<lparr>role = user, content = Blocks results\<rparr>]) w3"
proof -
  show "request_ids response = [] \<Longrightarrow>
           \<exists>w3. turn L opts sys msgs w
                  = Return (msgs @ [\<lparr>role = assistant, content = Blocks response\<rparr>]) w3"
    using assms by (cases rule: turn_cases[of L opts sys msgs w]) auto
  show "request_ids response \<noteq> [] \<Longrightarrow>
           \<exists>results w3. answers response results
              \<and> turn L opts sys msgs w
                  = Continue (msgs @ [\<lparr>role = assistant, content = Blocks response\<rparr>,
                                      \<lparr>role = user, content = Blocks results\<rparr>]) w3"
    using assms by (cases rule: turn_cases[of L opts sys msgs w]) auto
qed

lemma response_of_turn:
  "turn L opts sys msgs w = Return ms' w'
     \<Longrightarrow> \<exists>response. fst (client L (make_request L opts sys msgs) w) = Inr response
           \<and> request_ids response = []
           \<and> ms' = msgs @ [\<lparr>role = assistant, content = Blocks response\<rparr>]"
  "turn L opts sys msgs w = Continue ms' w'
     \<Longrightarrow> \<exists>response results. fst (client L (make_request L opts sys msgs) w) = Inr response
           \<and> request_ids response \<noteq> [] \<and> answers response results
           \<and> ms' = msgs @ [\<lparr>role = assistant, content = Blocks response\<rparr>,
                            \<lparr>role = user, content = Blocks results\<rparr>]"
  by (cases rule: turn_cases[of L opts sys msgs w]; auto)+

lemma loop_state_earlier:
  "loop_state L opts sys msgs w n \<noteq> None \<Longrightarrow> k \<le> n \<Longrightarrow> loop_state L opts sys msgs w k \<noteq> None"
proof (induction n)
  case 0
  then show ?case by simp
next
  case (Suc n)
  from Suc.prems(1) have "loop_state L opts sys msgs w n \<noteq> None"
    by (auto simp: loop_state_Suc_back simp del: loop_state.simps split: option.splits)
  with Suc show ?case by (cases "k = Suc n") auto
qed

lemma earlier_responses:
  assumes "loop_state L opts sys msgs w n \<noteq> None" and "k < n"
  shows "\<exists>response. nth_response L opts sys msgs w k = Some (Inr response)
           \<and> request_ids response \<noteq> []"
proof -
  have "loop_state L opts sys msgs w (Suc k) \<noteq> None"
    using assms by (intro loop_state_earlier[of L opts sys msgs w n "Suc k"]) auto
  then obtain ms w' ms' w'' where s: "loop_state L opts sys msgs w k = Some (ms, w')"
    and t: "turn L opts sys ms w' = Continue ms' w''"
    by (auto simp: loop_state_Suc_back simp del: loop_state.simps
          split: option.splits turn_result.splits)
  from response_of_turn(2)[OF t] s show ?thesis
    by (auto simp: nth_response_def)
qed

lemma length_conversation_trimmed: "conversation_trimmed ms ms' \<Longrightarrow> length ms' = length ms"
  by (induction ms ms' rule: conversation_trimmed.induct) auto

lemma entry_messages_trimmed: "conversation_trimmed (messages opts) (entry_messages opts)"
  by (simp add: entry_messages_def filter_trimmed conversation_trimmed_refl split: option.splits)

lemma length_entry_messages: "length (entry_messages opts) = length (messages opts)"
  using entry_messages_trimmed by (rule length_conversation_trimmed)

lemma loop_returns_at:
  assumes "nth_response L opts sys msgs w n = Some (Inr response)"
    and "request_ids response = []"
  shows "\<exists>ms w' w''. loop_state L opts sys msgs w n = Some (ms, w')
           \<and> run_loop L opts sys msgs w
                = Some (Inr (ms @ [\<lparr>role = assistant, content = Blocks response\<rparr>]), w'')"
proof -
  obtain ms w' where s: "loop_state L opts sys msgs w n = Some (ms, w')"
    and c: "fst (client L (make_request L opts sys ms) w') = Inr response"
    using assms(1) by (auto simp: nth_response_def split: option.splits)
  obtain w3 where
    "turn L opts sys ms w' = Return (ms @ [\<lparr>role = assistant, content = Blocks response\<rparr>]) w3"
    using turn_of_response(1)[OF c assms(2)] by auto
  then have "finish (turn L opts sys ms w')
      = Some (Inr (ms @ [\<lparr>role = assistant, content = Blocks response\<rparr>]), w3)" by simp
  with s have "run_loop L opts sys msgs w
      = Some (Inr (ms @ [\<lparr>role = assistant, content = Blocks response\<rparr>]), w3)"
    by (rule run_loop_reaches)
  with s show ?thesis by auto
qed

lemma loop_returned:
  assumes "run_loop L opts sys msgs w = Some (Inr ms', w'')"
  shows "\<exists>n ms w' response. loop_state L opts sys msgs w n = Some (ms, w')
           \<and> nth_response L opts sys msgs w n = Some (Inr response)
           \<and> request_ids response = []
           \<and> ms' = ms @ [\<lparr>role = assistant, content = Blocks response\<rparr>]"
proof -
  obtain n ms w' where s: "loop_state L opts sys msgs w n = Some (ms, w')"
    and f: "finish (turn L opts sys ms w') = Some (Inr ms', w'')"
    using run_loop_ends[OF assms] by auto
  from f have t: "turn L opts sys ms w' = Return ms' w''"
    by (cases "turn L opts sys ms w'") auto
  from response_of_turn(1)[OF t] obtain response where
    "fst (client L (make_request L opts sys ms) w') = Inr response" "request_ids response = []"
    "ms' = ms @ [\<lparr>role = assistant, content = Blocks response\<rparr>]" by auto
  moreover from this(1) s have "nth_response L opts sys msgs w n = Some (Inr response)"
    by (simp add: nth_response_def)
  ultimately show ?thesis using s by blast
qed

lemma loop_never_returns:
  assumes "\<forall>n. \<exists>response. nth_response L opts sys msgs w n = Some (Inr response)
             \<and> request_ids response \<noteq> []"
  shows "run_loop L opts sys msgs w = None"
proof -
  have "\<forall>n. loop_state L opts sys msgs w n \<noteq> None"
  proof
    fix n
    from assms obtain response where
      "nth_response L opts sys msgs w n = Some (Inr response)" by auto
    then show "loop_state L opts sys msgs w n \<noteq> None"
      by (auto simp: nth_response_def split: option.splits)
  qed
  then show ?thesis by (simp add: run_loop_None_iff)
qed

lemma service_always_requests:
  assumes "\<forall>req w. \<exists>response. fst (client L req w) = Inr response \<and> request_ids response \<noteq> []"
  shows "loop_state L opts sys msgs w n \<noteq> None"
proof (induction n)
  case 0
  show ?case by simp
next
  case (Suc n)
  then obtain ms w' where s: "loop_state L opts sys msgs w n = Some (ms, w')" by auto
  from assms obtain response where
    c: "fst (client L (make_request L opts sys ms) w') = Inr response"
    and r: "request_ids response \<noteq> []" by blast
  from turn_of_response(2)[OF c r] obtain ms' w'' where
    "turn L opts sys ms w' = Continue ms' w''" by auto
  with s show ?case by (simp add: loop_state_Suc_back del: loop_state.simps)
qed

text \<open>
  C4. A run returns exactly when the service gives a response without a
  \<^verbatim>\<open>tool_use\<close> block: if \<^verbatim>\<open>run\<close> returns a conversation, then some response of the
  run had no request, every response before it had one, and the conversation has grown
  by two messages for each of those and one for the last; if the response to the
  \<open>n\<close>-th request has no request, \<^verbatim>\<open>run\<close> returns; if every response has a request,
  \<^verbatim>\<open>run\<close> never returns (\<open>None\<close>), in particular when the service answers every
  request with one. When the first response has one request and the second has none,
  \<^verbatim>\<open>run\<close> returns the conversation it entered with, followed by the first assistant
  message, the user message with the one result, and the second assistant message: four
  messages when the caller passed one.
\<close>

theorem run_terminates_exactly:
  "(run L opts w = Some (Inr ms, w') \<longrightarrow>
      (\<exists>n response. run_response L opts w n = Some (Inr response)
         \<and> request_ids response = []
         \<and> (\<forall>k<n. \<exists>earlier. run_response L opts w k = Some (Inr earlier)
                      \<and> request_ids earlier \<noteq> [])
         \<and> length ms = length (messages opts) + 2 * n + 1))
   \<and> (run_response L opts w n = Some (Inr response) \<and> request_ids response = [] \<longrightarrow>
        (\<exists>ms w'. run L opts w = Some (Inr ms, w')))
   \<and> ((\<forall>n. \<exists>response. run_response L opts w n = Some (Inr response)
              \<and> request_ids response \<noteq> []) \<longrightarrow>
        run L opts w = None)
   \<and> ((\<forall>req w. \<exists>response. fst (client L req w) = Inr response \<and> request_ids response \<noteq> [])
        \<longrightarrow> run L opts w = None)
   \<and> (run_response L opts w 0 = Some (Inr first) \<and> request_ids first = [tid]
        \<and> run_response L opts w 1 = Some (Inr second) \<and> request_ids second = [] \<longrightarrow>
        (\<exists>result w'. result_id result = Some tid
           \<and> run L opts w
               = Some (Inr (entry_messages opts
                            @ [\<lparr>role = assistant, content = Blocks first\<rparr>,
                               \<lparr>role = user, content = Blocks [result]\<rparr>,
                               \<lparr>role = assistant, content = Blocks second\<rparr>]), w')
           \<and> length (entry_messages opts) = length (messages opts)))"
proof -
  define sys where "sys = system_text L opts w"
  define msgs where "msgs = entry_messages opts"
  have run: "run L opts w = run_loop L opts sys msgs w"
    unfolding sys_def msgs_def by (rule run_eq)
  have resp: "run_response L opts w = nth_response L opts sys msgs w"
    unfolding sys_def msgs_def by (rule ext) (simp add: run_response_def)
  have A: "\<exists>n response. nth_response L opts sys msgs w n = Some (Inr response)
         \<and> request_ids response = []
         \<and> (\<forall>k<n. \<exists>earlier. nth_response L opts sys msgs w k = Some (Inr earlier)
                      \<and> request_ids earlier \<noteq> [])
         \<and> length ms = length (messages opts) + 2 * n + 1"
    if ret: "run_loop L opts sys msgs w = Some (Inr ms, w')"
  proof -
    obtain n ms0 w0 response where s: "loop_state L opts sys msgs w n = Some (ms0, w0)"
      and r: "nth_response L opts sys msgs w n = Some (Inr response)" "request_ids response = []"
      and ms: "ms = ms0 @ [\<lparr>role = assistant, content = Blocks response\<rparr>]"
      using loop_returned[OF ret] by auto
    obtain app where "ms0 = msgs @ app" "length app = 2 * n"
      using loop_state_invariant[OF s] by auto
    then have len: "length ms = length (messages opts) + 2 * n + 1"
      using ms by (simp add: msgs_def length_entry_messages)
    have "\<forall>k<n. \<exists>earlier. nth_response L opts sys msgs w k = Some (Inr earlier)
                      \<and> request_ids earlier \<noteq> []"
      using s earlier_responses[of L opts sys msgs w n] by simp
    with r len show ?thesis by blast
  qed
  have B: "\<exists>ms w'. run_loop L opts sys msgs w = Some (Inr ms, w')"
    if "nth_response L opts sys msgs w n = Some (Inr response)" "request_ids response = []"
    using loop_returns_at[OF that] by auto
  have C: "run_loop L opts sys msgs w = None"
    if "\<forall>n. \<exists>response. nth_response L opts sys msgs w n = Some (Inr response)
              \<and> request_ids response \<noteq> []"
    using that by (rule loop_never_returns)
  have D: "run_loop L opts sys msgs w = None"
    if "\<forall>req w. \<exists>response. fst (client L req w) = Inr response \<and> request_ids response \<noteq> []"
    using service_always_requests[OF that] by (simp add: run_loop_None_iff)
  have E: "\<exists>result w'. result_id result = Some tid
           \<and> run_loop L opts sys msgs w
               = Some (Inr (msgs
                            @ [\<lparr>role = assistant, content = Blocks first\<rparr>,
                               \<lparr>role = user, content = Blocks [result]\<rparr>,
                               \<lparr>role = assistant, content = Blocks second\<rparr>]), w')
           \<and> length msgs = length (messages opts)"
    if one: "nth_response L opts sys msgs w 0 = Some (Inr first)" "request_ids first = [tid]"
      and two: "nth_response L opts sys msgs w 1 = Some (Inr second)" "request_ids second = []"
  proof -
    from one(1) have c: "fst (client L (make_request L opts sys msgs) w) = Inr first"
      by (simp add: nth_response_def)
    from one(2) have "request_ids first \<noteq> []" by simp
    from turn_of_response(2)[OF c this] obtain results w3 where
      a: "answers first results"
      and t: "turn L opts sys msgs w
                = Continue (msgs @ [\<lparr>role = assistant, content = Blocks first\<rparr>,
                                    \<lparr>role = user, content = Blocks results\<rparr>]) w3"
      by auto
    from a one(2) obtain result where res: "results = [result]" "result_id result = Some tid"
      by (cases results) (auto simp: answers_def)
    have s1: "loop_state L opts sys msgs w 1
        = Some (msgs @ [\<lparr>role = assistant, content = Blocks first\<rparr>,
                        \<lparr>role = user, content = Blocks results\<rparr>], w3)"
      using t by simp
    obtain ms w' w'' where "loop_state L opts sys msgs w 1 = Some (ms, w')"
      "run_loop L opts sys msgs w
         = Some (Inr (ms @ [\<lparr>role = assistant, content = Blocks second\<rparr>]), w'')"
      using loop_returns_at[OF two] by auto
    with s1 res show ?thesis
      by (auto simp: msgs_def length_entry_messages)
  qed
  show ?thesis
    unfolding run resp using A B C D E unfolding msgs_def by blast
qed

text \<open>
  C2 (amended). Dispatching a name that no registered effector has returns, without an
  exception, the failure result whose error is \<^verbatim>\<open>Tool <name> is invalid\<close>; assembled,
  it is a tool result flagged as an error whose one text item is that message.
\<close>

theorem unknown_tool_failure:
  assumes "nm \<notin> (\<lambda>t. name (toParams t)) ` set tools"
  shows "ToolCollection_run (new_ToolCollection tools) nm toolInput w
           = (Inr (ToolFailure (''Tool '' @ nm @ '' is invalid'')), w)
    \<and> makeApiToolResult (ToolFailure (''Tool '' @ nm @ '' is invalid'')) tid
           = ToolResultBlock tid (ArrayContent [TextItem (''Tool '' @ nm @ '' is invalid'')])
               (Some True)"
proof -
  have "map_of (new_ToolCollection tools) nm = None"
    using assms by (simp add: new_ToolCollection_absent)
  then have "ToolCollection_run (new_ToolCollection tools) nm toolInput w
           = (Inr (ToolFailure (''Tool '' @ nm @ '' is invalid'')), w)"
    by (simp add: ToolCollection_run_def)
  moreover have "makeApiToolResult (ToolFailure (''Tool '' @ nm @ '' is invalid'')) tid
           = ToolResultBlock tid (ArrayContent [TextItem (''Tool '' @ nm @ '' is invalid'')])
               (Some True)"
    by (simp add: makeApiToolResult_def ToolFailure_def maybePrependSystemToolResult_def)
  ultimately show ?thesis by simp
qed

theorem unknown_tool_failure_witness:
  "ToolCollection_run (new_ToolCollection [echo_tool]) ''missing'' ''{}'' ()
     = (Inr (ToolFailure ''Tool missing is invalid''), ())
   \<and> makeApiToolResult (ToolFailure ''Tool missing is invalid'') ''toolu_1''
     = ToolResultBlock ''toolu_1'' (ArrayContent [TextItem ''Tool missing is invalid''])
         (Some True)"
  using unknown_tool_failure[of "''missing''" "[echo_tool]" "''{}''" "()" "''toolu_1''"]
  by (simp add: echo_tool_def)

text \<open>
  C2, as the specification states it. The message \<^verbatim>\<open>missing is invalid\<close> is not the one that
  dispatching \<^verbatim>\<open>missing\<close> returns: the source puts \<^verbatim>\<open>Tool\<close> before the name.
\<close>

theorem unknown_tool_counterexample:
  "fst (ToolCollection_run (new_ToolCollection [echo_tool]) ''missing'' ''{}'' ())
     \<noteq> Inr (ToolFailure ''missing is invalid'')"
  by (simp add: ToolCollection_run_def new_ToolCollection_def echo_tool_def ToolFailure_def)



theorem run_terminates_exactly_witness:
  "(\<exists>result w'.
      run (scripted_loop two_turn_script) (sendMessage_options ''go'' None) ()
        = Some (Inr [\<lparr>role = user, content = Str ''go''\<rparr>,
                     \<lparr>role = assistant,
                      content = Blocks [Text ''Looking.'', ToolUse ''toolu_1'' ''computer'' ''{}'']\<rparr>,
                     \<lparr>role = user, content = Blocks [result]\<rparr>,
                     \<lparr>role = assistant, content = Blocks [Text ''Done.'']\<rparr>], w'))
   \<and> run (scripted_loop insistent_script) (sendMessage_options ''go'' None) () = None"
proof -
  let ?L = "scripted_loop two_turn_script" and ?opts = "sendMessage_options ''go'' None"
  have r0: "run_response ?L ?opts () 0
      = Some (Inr [Text ''Looking.'', ToolUse ''toolu_1'' ''computer'' ''{}''])"
    by code_simp
  have r1: "run_response ?L ?opts () 1 = Some (Inr [Text ''Done.''])"
    by code_simp
  have e: "entry_messages ?opts = [\<lparr>role = user, content = Str ''go''\<rparr>]"
    by (simp add: entry_messages_def sendMessage_options_def)
  have always: "\<forall>req w. \<exists>response.
      fst (client (scripted_loop insistent_script) req w) = Inr response
      \<and> request_ids response \<noteq> []"
    by (simp add: scripted_loop_def insistent_script_def)
  have two: "\<exists>result w'.
      run ?L ?opts ()
        = Some (Inr (entry_messages ?opts
                     @ [\<lparr>role = assistant,
                         content = Blocks [Text ''Looking.'', ToolUse ''toolu_1'' ''computer'' ''{}'']\<rparr>,
                        \<lparr>role = user, content = Blocks [result]\<rparr>,
                        \<lparr>role = assistant, content = Blocks [Text ''Done.'']\<rparr>]), w')"
    using run_terminates_exactly[of ?L ?opts "()" "[]" "()" 0 "[]"
            "[Text ''Looking.'', ToolUse ''toolu_1'' ''computer'' ''{}'']" "''toolu_1''"
            "[Text ''Done.'']"]
          r0 r1
    by (simp del: One_nat_def) blast
  have never: "run (scripted_loop insistent_script) ?opts () = None"
    using run_terminates_exactly[of "scripted_loop insistent_script" ?opts "()" "[]" "()" 0 "[]"
            "[]" "[]" "[]"] always
    by blast
  show ?thesis
    using two never unfolding e by simp
qed

lemma exchanges_roles:
  "exchanges app \<Longrightarrow> length app = 2 * k
     \<Longrightarrow> map role app = concat (replicate k [assistant, user])"
proof (induction app arbitrary: k rule: exchanges.induct)
  case 1
  then show ?case by simp
next
  case (2 m)
  then show ?case by simp
next
  case (3 a u rest)
  from "3.prems"(2) obtain k' where k: "k = Suc k'" by (cases k) auto
  with "3.prems" have "exchanges rest" "length rest = 2 * k'" by auto
  then have "map role rest = concat (replicate k' [assistant, user])" by (rule "3.IH")
  with "3.prems"(1) k show ?case by simp
qed

lemma distinct_filter_one:
  "distinct xs \<Longrightarrow> x \<in> set xs \<Longrightarrow> length (filter (\<lambda>i. i = x) xs) = 1"
proof (induction xs)
  case Nil
  then show ?case by simp
next
  case (Cons y ys)
  show ?case
  proof (cases "y = x")
    case True
    with Cons.prems have "x \<notin> set ys" by simp
    then have "filter (\<lambda>i. i = x) ys = []" by (auto simp: filter_empty_conv)
    with True show ?thesis by simp
  next
    case False
    with Cons show ?thesis by simp
  qed
qed

lemma answers_unfold:
  assumes "answers response results"
  shows "length results = length (request_ids response)"
    and "i < length results \<Longrightarrow> result_id (results ! i) = Some (request_ids response ! i)"
    and "distinct (request_ids response) \<Longrightarrow> tid \<in> set (request_ids response)
           \<Longrightarrow> length (filter (\<lambda>b. result_id b = Some tid) results) = 1"
proof -
  have m: "map result_id results = map Some (request_ids response)"
    using assms by (simp add: answers_def)
  show len: "length results = length (request_ids response)"
    using m by (metis length_map)
  show "result_id (results ! i) = Some (request_ids response ! i)" if "i < length results"
    using that len m by (metis nth_map)
  show "length (filter (\<lambda>b. result_id b = Some tid) results) = 1"
    if d: "distinct (request_ids response)" and t: "tid \<in> set (request_ids response)"
  proof -
    have "length (filter (\<lambda>b. result_id b = Some tid) results)
            = length (filter (\<lambda>x. x = Some tid) (map result_id results))"
      by (simp add: filter_map comp_def)
    also have "\<dots> = length (filter (\<lambda>x. x = Some tid) (map Some (request_ids response)))"
      by (simp add: m)
    also have "\<dots> = length (filter (\<lambda>i. i = tid) (request_ids response))"
      by (simp add: filter_map comp_def)
    also have "\<dots> = 1" using d t by (rule distinct_filter_one)
    finally show ?thesis .
  qed
qed

lemma two_turn_run:
  "run (scripted_loop two_turn_script) (sendMessage_options ''go'' None) ()
     = Some (Inr [\<lparr>role = user, content = Str ''go''\<rparr>,
                  \<lparr>role = assistant,
                   content = Blocks [Text ''Looking.'', ToolUse ''toolu_1'' ''computer'' ''{}'']\<rparr>,
                  \<lparr>role = user,
                   content = Blocks [ToolResultBlock ''toolu_1''
                                       (ArrayContent [ImageItem image_png ''AAAA'']) (Some False)]\<rparr>,
                  \<lparr>role = assistant, content = Blocks [Text ''Done.'']\<rparr>], ())"
proof -
  let ?L = "scripted_loop two_turn_script" and ?opts = "sendMessage_options ''go'' None"
  let ?ms = "[\<lparr>role = user, content = Str ''go''\<rparr>,
              \<lparr>role = assistant,
               content = Blocks [Text ''Looking.'', ToolUse ''toolu_1'' ''computer'' ''{}'']\<rparr>,
              \<lparr>role = user,
               content = Blocks [ToolResultBlock ''toolu_1''
                                   (ArrayContent [ImageItem image_png ''AAAA'']) (Some False)]\<rparr>]"
  have s: "loop_state ?L ?opts (system_text ?L ?opts ()) (entry_messages ?opts) () 1
             = Some (?ms, ())"
    by code_simp
  have f: "finish (turn ?L ?opts (system_text ?L ?opts ()) ?ms ())
             = Some (Inr (?ms @ [\<lparr>role = assistant, content = Blocks [Text ''Done.'']\<rparr>]), ())"
    by code_simp
  show ?thesis
    unfolding run_eq using run_loop_reaches[OF s f] by simp
qed

text \<open>
  C3. Every request that the loop sends carries the conversation of entry followed by
  exchanges: pairs of an assistant message with requests and the user message whose
  blocks answer them, so no call is made while a request is unanswered; and the
  conversation that \<^verbatim>\<open>run\<close> returns is such a sequence followed by an assistant
  message without requests. A user message answers an assistant message when it has
  one tool result for each request, in the order of the requests and with their ids:
  the \<open>i\<close>-th result has the id of the \<open>i\<close>-th request, and when the ids of the requests
  are distinct each id has exactly one result.
\<close>

theorem requests_answered:
  "(run_request L opts w n = Some req \<longrightarrow>
      (\<exists>app. req_messages req = entry_messages opts @ app \<and> exchanges app
         \<and> length app = 2 * n))
   \<and> (run L opts w = Some (Inr ms, w') \<longrightarrow>
        (\<exists>app final. ms = entry_messages opts @ app
                          @ [\<lparr>role = assistant, content = Blocks final\<rparr>]
           \<and> exchanges app \<and> request_ids final = []))
   \<and> (answers response results \<longrightarrow>
        length results = length (request_ids response)
        \<and> (\<forall>i<length results. result_id (results ! i) = Some (request_ids response ! i))
        \<and> (distinct (request_ids response) \<longrightarrow>
             (\<forall>tid\<in>set (request_ids response).
                length (filter (\<lambda>b. result_id b = Some tid) results) = 1)))"
proof -
  define sys where "sys = system_text L opts w"
  define msgs where "msgs = entry_messages opts"
  have A: "\<exists>app. req_messages req = msgs @ app \<and> exchanges app \<and> length app = 2 * n"
    if req: "run_request L opts w n = Some req"
  proof -
    from req obtain ms0 w0 where s: "loop_state L opts sys msgs w n = Some (ms0, w0)"
      and r: "req = make_request L opts sys ms0"
      by (auto simp: run_request_def nth_request_def sys_def msgs_def split: option.splits)
    from loop_state_invariant[OF s] r show ?thesis
      by (simp add: make_request_def)
  qed
  have B: "\<exists>app final. ms = msgs @ app @ [\<lparr>role = assistant, content = Blocks final\<rparr>]
           \<and> exchanges app \<and> request_ids final = []"
    if ret: "run L opts w = Some (Inr ms, w')"
  proof -
    from ret have "run_loop L opts sys msgs w = Some (Inr ms, w')"
      by (simp add: run_eq sys_def msgs_def)
    from loop_returned[OF this] obtain n ms0 w0 final where
      s: "loop_state L opts sys msgs w n = Some (ms0, w0)"
      and f: "request_ids final = []"
         "ms = ms0 @ [\<lparr>role = assistant, content = Blocks final\<rparr>]"
      by auto
    from loop_state_invariant[OF s] obtain app where "ms0 = msgs @ app" "exchanges app"
      by auto
    with f show ?thesis by auto
  qed
  have C: "length results = length (request_ids response)
        \<and> (\<forall>i<length results. result_id (results ! i) = Some (request_ids response ! i))
        \<and> (distinct (request_ids response) \<longrightarrow>
             (\<forall>tid\<in>set (request_ids response).
                length (filter (\<lambda>b. result_id b = Some tid) results) = 1))"
    if a: "answers response results"
    using answers_unfold[OF a] by blast
  show ?thesis using A B C unfolding msgs_def by blast
qed

theorem requests_answered_witness:
  "(\<exists>app. [\<lparr>role = user, content = Str ''go''\<rparr>,
            \<lparr>role = assistant,
             content = Blocks [Text ''Looking.'', ToolUse ''toolu_1'' ''computer'' ''{}'']\<rparr>,
            \<lparr>role = user,
             content = Blocks [ToolResultBlock ''toolu_1''
                                 (ArrayContent [ImageItem image_png ''AAAA'']) (Some False)]\<rparr>]
           = [\<lparr>role = user, content = Str ''go''\<rparr>] @ app
         \<and> exchanges app \<and> length app = 2)
   \<and> (\<exists>app final.
         [\<lparr>role = user, content = Str ''go''\<rparr>,
          \<lparr>role = assistant,
           content = Blocks [Text ''Looking.'', ToolUse ''toolu_1'' ''computer'' ''{}'']\<rparr>,
          \<lparr>role = user,
           content = Blocks [ToolResultBlock ''toolu_1''
                               (ArrayContent [ImageItem image_png ''AAAA'']) (Some False)]\<rparr>,
          \<lparr>role = assistant, content = Blocks [Text ''Done.'']\<rparr>]
           = [\<lparr>role = user, content = Str ''go''\<rparr>] @ app
             @ [\<lparr>role = assistant, content = Blocks final\<rparr>]
         \<and> exchanges app \<and> request_ids final = [])
   \<and> length (filter (\<lambda>b. result_id b = Some ''toolu_1'')
         [ToolResultBlock ''toolu_1'' (ArrayContent [ImageItem image_png ''AAAA'']) (Some False)])
       = 1"
proof -
  let ?L = "scripted_loop two_turn_script" and ?opts = "sendMessage_options ''go'' None"
  let ?first = "[Text ''Looking.'', ToolUse ''toolu_1'' ''computer'' ''{}'']"
  let ?results = "[ToolResultBlock ''toolu_1'' (ArrayContent [ImageItem image_png ''AAAA''])
                    (Some False)]"
  let ?ms1 = "[\<lparr>role = user, content = Str ''go''\<rparr>,
               \<lparr>role = assistant, content = Blocks ?first\<rparr>,
               \<lparr>role = user, content = Blocks ?results\<rparr>]"
  let ?req = "make_request ?L ?opts (system_text ?L ?opts ()) ?ms1"
  have r: "run_request ?L ?opts () 1 = Some ?req"
    by code_simp
  have e: "entry_messages ?opts = [\<lparr>role = user, content = Str ''go''\<rparr>]"
    by (simp add: entry_messages_def sendMessage_options_def)
  have a: "answers ?first ?results"
    by (simp add: answers_def)
  have m: "req_messages ?req = ?ms1"
    by (simp add: make_request_def)
  note thm1 = requests_answered[of ?L ?opts "()" 1 ?req
                 "?ms1 @ [\<lparr>role = assistant, content = Blocks [Text ''Done.'']\<rparr>]" "()"
                 ?first ?results]
  have one: "\<exists>app. ?ms1 = [\<lparr>role = user, content = Str ''go''\<rparr>] @ app
         \<and> exchanges app \<and> length app = 2"
    using thm1 r unfolding e m by (simp del: exchanges.simps append.simps One_nat_def)
  have two: "\<exists>app final.
         ?ms1 @ [\<lparr>role = assistant, content = Blocks [Text ''Done.'']\<rparr>]
           = [\<lparr>role = user, content = Str ''go''\<rparr>] @ app
             @ [\<lparr>role = assistant, content = Blocks final\<rparr>]
         \<and> exchanges app \<and> request_ids final = []"
    using thm1 two_turn_run unfolding e by (simp del: exchanges.simps)
  have three: "length (filter (\<lambda>b. result_id b = Some ''toolu_1'') ?results) = 1"
    using thm1 a by simp
  show ?thesis using one two three by simp
qed

text \<open>
  C9. The conversation is the one state that \<^verbatim>\<open>run\<close> threads through its loop and
  returns. What \<^verbatim>\<open>run\<close> returns is the conversation of entry followed by appended
  messages whose roles alternate, assistant first and last; the conversation of entry
  is the caller's, message by message, but for image items deleted from the contents
  of tool results, and it is the caller's unchanged when trimming is not configured.
\<close>

theorem run_only_appends:
  "(run L opts w = Some (Inr ms, w') \<longrightarrow>
      (\<exists>app k. ms = entry_messages opts @ app
         \<and> map role app = concat (replicate k [assistant, user]) @ [assistant]))
   \<and> conversation_trimmed (messages opts) (entry_messages opts)
   \<and> (onlyNMostRecentImages opts = None \<or> onlyNMostRecentImages opts = Some 0 \<longrightarrow>
        entry_messages opts = messages opts)"
proof -
  have A: "\<exists>app k. ms = entry_messages opts @ app
         \<and> map role app = concat (replicate k [assistant, user]) @ [assistant]"
    if ret: "run L opts w = Some (Inr ms, w')"
  proof -
    define sys where "sys = system_text L opts w"
    define msgs where "msgs = entry_messages opts"
    from ret have "run_loop L opts sys msgs w = Some (Inr ms, w')"
      by (simp add: run_eq sys_def msgs_def)
    from loop_returned[OF this] obtain n ms0 w0 final where
      s: "loop_state L opts sys msgs w n = Some (ms0, w0)"
      and f: "ms = ms0 @ [\<lparr>role = assistant, content = Blocks final\<rparr>]"
      by auto
    from loop_state_invariant[OF s] obtain app where
      app: "ms0 = msgs @ app" "exchanges app" "length app = 2 * n"
      by auto
    have "map role app = concat (replicate n [assistant, user])"
      using app(2,3) by (rule exchanges_roles)
    then have "ms = msgs @ (app @ [\<lparr>role = assistant, content = Blocks final\<rparr>])
        \<and> map role (app @ [\<lparr>role = assistant, content = Blocks final\<rparr>])
            = concat (replicate n [assistant, user]) @ [assistant]"
      using f app(1) by simp
    then show ?thesis unfolding msgs_def by blast
  qed
  have C: "entry_messages opts = messages opts"
    if "onlyNMostRecentImages opts = None \<or> onlyNMostRecentImages opts = Some 0"
    using that by (auto simp: entry_messages_def)
  show ?thesis using A entry_messages_trimmed C by blast
qed

theorem run_only_appends_witness:
  "(\<exists>app k.
      [\<lparr>role = user, content = Str ''go''\<rparr>,
       \<lparr>role = assistant,
        content = Blocks [Text ''Looking.'', ToolUse ''toolu_1'' ''computer'' ''{}'']\<rparr>,
       \<lparr>role = user,
        content = Blocks [ToolResultBlock ''toolu_1''
                            (ArrayContent [ImageItem image_png ''AAAA'']) (Some False)]\<rparr>,
       \<lparr>role = assistant, content = Blocks [Text ''Done.'']\<rparr>]
        = [\<lparr>role = user, content = Str ''go''\<rparr>] @ app
      \<and> map role app = concat (replicate k [assistant, user]) @ [assistant])
   \<and> conversation_trimmed (screenshots 25)
        (entry_messages ((sendMessage_options ''go'' (Some 10))\<lparr>messages := screenshots 25\<rparr>))
   \<and> entry_messages (sendMessage_options ''go'' (Some 0)) = [\<lparr>role = user, content = Str ''go''\<rparr>]"
proof -
  let ?L = "scripted_loop two_turn_script" and ?opts = "sendMessage_options ''go'' None"
  have e: "entry_messages ?opts = [\<lparr>role = user, content = Str ''go''\<rparr>]"
    by (simp add: entry_messages_def sendMessage_options_def)
  have one: "\<exists>app k.
      [\<lparr>role = user, content = Str ''go''\<rparr>,
       \<lparr>role = assistant,
        content = Blocks [Text ''Looking.'', ToolUse ''toolu_1'' ''computer'' ''{}'']\<rparr>,
       \<lparr>role = user,
        content = Blocks [ToolResultBlock ''toolu_1''
                            (ArrayContent [ImageItem image_png ''AAAA'']) (Some False)]\<rparr>,
       \<lparr>role = assistant, content = Blocks [Text ''Done.'']\<rparr>]
        = [\<lparr>role = user, content = Str ''go''\<rparr>] @ app
      \<and> map role app = concat (replicate k [assistant, user]) @ [assistant]"
    using run_only_appends[of ?L ?opts "()" _ "()"] two_turn_run unfolding e
    by (simp del: append.simps)
  have two: "conversation_trimmed (screenshots 25)
        (entry_messages ((sendMessage_options ''go'' (Some 10))\<lparr>messages := screenshots 25\<rparr>))"
    using run_only_appends[of ?L "(sendMessage_options ''go'' (Some 10))\<lparr>messages := screenshots 25\<rparr>"
            "()" "[]" "()"]
    by simp
  have three: "entry_messages (sendMessage_options ''go'' (Some 0))
                 = [\<lparr>role = user, content = Str ''go''\<rparr>]"
    using run_only_appends[of ?L "sendMessage_options ''go'' (Some 0)" "()" "[]" "()"]
    by (simp add: sendMessage_options_def)
  show ?thesis using one two three by simp
qed

lemma sendMessage_entry:
  "entry_messages (sendMessage_options msg keep) = [\<lparr>role = user, content = Str msg\<rparr>]"
proof -
  have "images [\<lparr>role = user, content = Str msg\<rparr>] = []"
    by (simp add: images_def toolResultBlocks_def)
  then have "filterNMostRecentImages [\<lparr>role = user, content = Str msg\<rparr>] n 10
               = [\<lparr>role = user, content = Str msg\<rparr>]" for n
    by (rule filter_no_images)
  then show ?thesis
    by (simp add: entry_messages_def sendMessage_options_def split: option.splits)
qed

lemma eleven_shots_second_request:
  "map_option (\<lambda>req. (totalImages (req_messages req),
                 totalImages (filterNMostRecentImages (req_messages req) 1 10)))
     (run_request (scripted_loop eleven_shots_script) (sendMessage_options ''go'' (Some 1)) () 1)
   = Some (11, 1)"
  by code_simp

text \<open>
  C1. \<^verbatim>\<open>run\<close> calls the trimmer once, before its loop. On the conversation that
  \<^verbatim>\<open>sendMessage\<close> passes, one user message that is a string, that call changes
  nothing whatever \<^verbatim>\<open>onlyNMostRecentImages\<close> is. With
  \<^verbatim>\<open>onlyNMostRecentImages = 1\<close>, when the first response requests eleven screenshots,
  the second request carries all eleven images; the trimmer applied to that
  conversation would leave one.
\<close>

theorem trimmer_not_reapplied:
  "entry_messages (sendMessage_options msg keep) = messages (sendMessage_options msg keep)
   \<and> map_option (\<lambda>req. (totalImages (req_messages req),
                 totalImages (filterNMostRecentImages (req_messages req) 1 10)))
       (run_request (scripted_loop eleven_shots_script) (sendMessage_options ''go'' (Some 1)) () 1)
     = Some (11, 1)"
  using sendMessage_entry[of msg keep] eleven_shots_second_request
  by (simp add: sendMessage_options_def)

end
